theory Spec2Isabelle
  imports Main
begin

chapter \<open>An OpenAI/Anthropic protocol translator\<close>

text \<open>
  A shallow embedding of \<^verbatim>\<open>src/anthropicHandlers.ts\<close>: the tool-schema cleaner
  (\<^verbatim>\<open>cleanJsonSchema\<close>), request validation (\<^verbatim>\<open>validateRequest\<close>) and the routing guard of
  \<^verbatim>\<open>handleAnthropicMessagesRequest\<close>, the non-streaming response translator
  (\<^verbatim>\<open>convertNormalResponse\<close>) and the streaming re-encoder (\<^verbatim>\<open>convertStreamResponse\<close>
  over \<^verbatim>\<open>processProviderStream\<close>).

  Exceptions are values of a sum type, the mutable tool-call buffer and the stream
  controller's queue are passed explicitly, and the platform's \<^verbatim>\<open>JSON.parse\<close> is a
  parameter of the functions that call it.
\<close>

section \<open>JSON values\<close>

text \<open>
  A value as \<^verbatim>\<open>JSON.parse\<close> returns it. An object is the list of its properties in
  enumeration order. Numbers are the integers: no function below computes with a
  fraction. JavaScript's \<^verbatim>\<open>undefined\<close> is \<open>None\<close> of \<open>json option\<close>.
\<close>

datatype json = JNull | JBool bool | JNum int | JStr string
  | JArr "json list" | JObj "(string \<times> json) list"

text \<open>\<^verbatim>\<open>typeof v === 'object'\<close>: true of \<^verbatim>\<open>null\<close>, of arrays and of objects.\<close>

fun typeof_object :: "json \<Rightarrow> bool" where
  "typeof_object JNull = True"
| "typeof_object (JArr xs) = True"
| "typeof_object (JObj kvs) = True"
| "typeof_object v = False"

fun isArray :: "json \<Rightarrow> bool" where
  "isArray (JArr xs) = True"
| "isArray v = False"

text \<open>The truthiness of a value (\<^verbatim>\<open>!v\<close> is its negation).\<close>

fun truthy :: "json option \<Rightarrow> bool" where
  "truthy None = False"
| "truthy (Some JNull) = False"
| "truthy (Some (JBool b)) = b"
| "truthy (Some (JNum n)) = (n \<noteq> 0)"
| "truthy (Some (JStr s)) = (s \<noteq> [])"
| "truthy (Some (JArr xs)) = True"
| "truthy (Some (JObj kvs)) = True"

text \<open>The truthiness of an optional string: absent, \<^verbatim>\<open>null\<close> and \<^verbatim>\<open>''\<close> are falsy.\<close>

fun truthy_str :: "string option \<Rightarrow> bool" where
  "truthy_str None = False"
| "truthy_str (Some s) = (s \<noteq> [])"

text \<open>\<^verbatim>\<open>s || ''\<close> for an optional string.\<close>

fun or_empty :: "string option \<Rightarrow> string" where
  "or_empty None = []"
| "or_empty (Some s) = s"

text \<open>The exceptions the modelled code can raise.\<close>

datatype js_error = SyntaxError | TypeError

text \<open>
  The property read \<^verbatim>\<open>v.key\<close>, for the keys read below (\<^verbatim>\<open>model\<close>, \<^verbatim>\<open>max_tokens\<close>,
  \<^verbatim>\<open>messages\<close>, \<^verbatim>\<open>role\<close>, \<^verbatim>\<open>content\<close>, \<^verbatim>\<open>items\<close>): none of them is an array index,
  \<^verbatim>\<open>length\<close> or a member of a prototype, so only an object has them; reading a
  property of \<^verbatim>\<open>null\<close> raises a TypeError.
\<close>

fun get_prop :: "json \<Rightarrow> string \<Rightarrow> js_error + json option" where
  "get_prop JNull key = Inl TypeError"
| "get_prop (JObj kvs) key = Inr (map_of kvs key)"
| "get_prop v key = Inr None"

text \<open>Decimal digits of an array index, as a property key.\<close>

definition digit_char :: "nat \<Rightarrow> char" where
  "digit_char n = ''0123456789'' ! n"

fun show_nat :: "nat \<Rightarrow> string" where
  "show_nat n =
     (if n < 10 then [digit_char n] else show_nat (n div 10) @ [digit_char (n mod 10)])"

section \<open>The tool-schema cleaner\<close>

text \<open>
  \<^verbatim>\<open>cleanJsonSchema\<close> (lines 33-55). A falsy or non-object schema is returned as it is.
  Otherwise \<^verbatim>\<open>{ ...schema }\<close> copies the own properties into a new object: those of an
  object, or the elements of an array under their indices (\<open>spread\<close>). The
  \<^verbatim>\<open>for ... in\<close> loop (\<open>cleanKeys\<close>) then visits each key of the copy once. The test
  \<^verbatim>\<open>cleaned.type === 'string'\<close> is computed once, from the input: the loop never deletes
  the key \<^verbatim>\<open>type\<close> and never replaces its value by a string.
  The keys of a spread array are indices, so only the last branch of the loop applies to
  them.
\<close>

fun cleanJsonSchema :: "json \<Rightarrow> json"
  and cleanKeys :: "bool \<Rightarrow> (string \<times> json) list \<Rightarrow> (string \<times> json) list"
  and spread :: "nat \<Rightarrow> json list \<Rightarrow> (string \<times> json) list"
where
  "cleanJsonSchema (JObj kvs) =
     JObj (cleanKeys (map_of kvs ''type'' = Some (JStr ''string'')) kvs)"
| "cleanJsonSchema (JArr xs) = JObj (spread 0 xs)"
| "cleanJsonSchema v = v"
| "cleanKeys type_is_string [] = []"
| "cleanKeys type_is_string ((key, v) # rest) =
     (if key = ''$schema'' \<or> key = ''additionalProperties'' \<or> key = ''title''
         \<or> key = ''examples''
      then cleanKeys type_is_string rest
      else if key = ''format'' \<and> type_is_string then cleanKeys type_is_string rest
      else if key = ''properties'' \<and> typeof_object v
      then (key, cleanJsonSchema v) # cleanKeys type_is_string rest
      else if key = ''items'' \<and> typeof_object v
      then (key, cleanJsonSchema v) # cleanKeys type_is_string rest
      else if typeof_object v \<and> \<not> isArray v
      then (key, cleanJsonSchema v) # cleanKeys type_is_string rest
      else (key, v) # cleanKeys type_is_string rest)"
| "spread i [] = []"
| "spread i (x # rest) =
     (show_nat i, if typeof_object x \<and> \<not> isArray x then cleanJsonSchema x else x)
       # spread (Suc i) rest"

text \<open>
  The keys the cleaner removes, as predicates on a value: \<open>banned_key kvs key\<close> holds of
  a key of the object \<open>kvs\<close> that the loop deletes. \<open>has_banned\<close> searches a value for
  such a key at any depth; \<open>has_banned_object\<close> searches the value and the objects
  nested in it through property values that are objects, and does not look into arrays.
\<close>

definition banned_key :: "(string \<times> json) list \<Rightarrow> string \<Rightarrow> bool" where
  "banned_key kvs key =
     (key = ''$schema'' \<or> key = ''additionalProperties'' \<or> key = ''title''
      \<or> key = ''examples''
      \<or> (key = ''format'' \<and> map_of kvs ''type'' = Some (JStr ''string'')))"

fun has_banned :: "json \<Rightarrow> bool"
  and has_banned_props :: "(string \<times> json) list \<Rightarrow> (string \<times> json) list \<Rightarrow> bool"
  and has_banned_elems :: "json list \<Rightarrow> bool"
where
  "has_banned (JObj kvs) = has_banned_props kvs kvs"
| "has_banned (JArr xs) = has_banned_elems xs"
| "has_banned v = False"
| "has_banned_props obj [] = False"
| "has_banned_props obj ((key, v) # rest) =
     (banned_key obj key \<or> has_banned v \<or> has_banned_props obj rest)"
| "has_banned_elems [] = False"
| "has_banned_elems (x # rest) = (has_banned x \<or> has_banned_elems rest)"

fun has_banned_object :: "json \<Rightarrow> bool"
  and has_banned_object_props :: "(string \<times> json) list \<Rightarrow> (string \<times> json) list \<Rightarrow> bool"
where
  "has_banned_object (JObj kvs) = has_banned_object_props kvs kvs"
| "has_banned_object v = False"
| "has_banned_object_props obj [] = False"
| "has_banned_object_props obj ((key, v) # rest) =
     (banned_key obj key \<or> has_banned_object v \<or> has_banned_object_props obj rest)"

text \<open>Auxiliary predicates for the proofs about the cleaner.\<close>

definition is_digit :: "char \<Rightarrow> bool" where
  "is_digit c = (c \<in> set ''0123456789'')"

text \<open>The loop body in one equation: a key is dropped, or kept with its value cleaned or not.\<close>

definition dropped :: "bool \<Rightarrow> string \<Rightarrow> bool" where
  "dropped t key =
     (key = ''$schema'' \<or> key = ''additionalProperties'' \<or> key = ''title''
      \<or> key = ''examples'' \<or> (key = ''format'' \<and> t))"

definition recursed :: "string \<Rightarrow> json \<Rightarrow> bool" where
  "recursed key v =
     (typeof_object v \<and> (key = ''properties'' \<or> key = ''items'' \<or> \<not> isArray v))"

section \<open>The tool-schema cleaner on a store\<close>

text \<open>
  The cleaner copies its argument (\<^verbatim>\<open>const cleaned = { ...schema }\<close>) and then assigns to
  and deletes from the copy, while the values of the copy's properties are still the
  objects of the argument. Whether the argument is changed depends on this aliasing, so
  the function is given a second time, on an explicit store: a value is a primitive or
  the address of an object, the store is the list of the allocated objects, and an
  object is allocated at the end of the store.
\<close>

datatype hval = HNull | HBool bool | HNum int | HStr string | HRef nat

datatype hobj = HObject "(string \<times> hval) list" | HArray "hval list"

type_synonym heap = "hobj list"

text \<open>The own enumerable properties of an object; those of an array are its indices.\<close>

fun own_properties :: "hobj \<Rightarrow> (string \<times> hval) list" where
  "own_properties (HObject kvs) = kvs"
| "own_properties (HArray xs) = zip (map show_nat [0..<length xs]) xs"

fun h_typeof_object :: "hval \<Rightarrow> bool" where
  "h_typeof_object HNull = True"
| "h_typeof_object (HRef a) = True"
| "h_typeof_object v = False"

fun h_isArray :: "heap \<Rightarrow> hval \<Rightarrow> bool" where
  "h_isArray h (HRef a) = (case h ! a of HArray xs \<Rightarrow> True | HObject kvs \<Rightarrow> False)"
| "h_isArray h v = False"

text \<open>\<^verbatim>\<open>delete cleaned[key]\<close> and \<^verbatim>\<open>cleaned[key] = v\<close> for a key the object has.\<close>

definition delete_key :: "string \<Rightarrow> (string \<times> hval) list \<Rightarrow> (string \<times> hval) list" where
  "delete_key key props = filter (\<lambda>p. fst p \<noteq> key) props"

definition set_key :: "string \<Rightarrow> hval \<Rightarrow> (string \<times> hval) list \<Rightarrow> (string \<times> hval) list" where
  "set_key key v props = map (\<lambda>p. if fst p = key then (key, v) else p) props"

text \<open>\<^verbatim>\<open>key === name\<close>, on strings.\<close>

definition key_is :: "string \<Rightarrow> string \<Rightarrow> bool" where
  "key_is key name = (key = name)"

text \<open>
  \<open>cleanJsonSchemaH n h schema\<close> is the call \<^verbatim>\<open>cleanJsonSchema(schema)\<close> in the store \<open>h\<close>,
  and returns the store after the call and the value returned. The copy is allocated at
  the address \<open>length h\<close>; \<open>cleanLoopH\<close> is the \<^verbatim>\<open>for (const key in cleaned)\<close> loop over the
  keys the copy had when the loop began, which skips a key the copy no longer has. The
  objects of a store may refer to each other in a cycle, on which the source recurses
  until the stack overflows: \<open>n\<close> bounds the depth of the recursion, and \<open>None\<close> is a
  call that needs a greater depth.
\<close>

fun cleanJsonSchemaH :: "nat \<Rightarrow> heap \<Rightarrow> hval \<Rightarrow> (heap \<times> hval) option"
  and cleanLoopH :: "nat \<Rightarrow> nat \<Rightarrow> string list \<Rightarrow> heap \<Rightarrow> heap option"
where
  "cleanJsonSchemaH 0 h schema = None"
| "cleanJsonSchemaH (Suc n) h schema =
     (case schema of
        HRef a \<Rightarrow>
          (case cleanLoopH n (length h) (map fst (own_properties (h ! a)))
                  (h @ [HObject (own_properties (h ! a))]) of
             None \<Rightarrow> None
           | Some h' \<Rightarrow> Some (h', HRef (length h)))
      | _ \<Rightarrow> Some (h, schema))"
| "cleanLoopH n cleaned [] h = Some h"
| "cleanLoopH n cleaned (key # keys) h =
     (case map_of (own_properties (h ! cleaned)) key of
        None \<Rightarrow> cleanLoopH n cleaned keys h
      | Some v \<Rightarrow>
          if key_is key ''$schema'' \<or> key_is key ''additionalProperties''
             \<or> key_is key ''title'' \<or> key_is key ''examples''
          then cleanLoopH n cleaned keys
                 (h[cleaned := HObject (delete_key key (own_properties (h ! cleaned)))])
          else if key_is key ''format''
                  \<and> map_of (own_properties (h ! cleaned)) ''type'' = Some (HStr ''string'')
          then cleanLoopH n cleaned keys
                 (h[cleaned := HObject (delete_key key (own_properties (h ! cleaned)))])
          else if (key_is key ''properties'' \<and> h_typeof_object v)
                  \<or> (key_is key ''items'' \<and> h_typeof_object v)
                  \<or> (h_typeof_object v \<and> \<not> h_isArray h v)
          then (case cleanJsonSchemaH n h v of
                  None \<Rightarrow> None
                | Some (h', v') \<Rightarrow>
                    cleanLoopH n cleaned keys
                      (h'[cleaned := HObject (set_key key v' (own_properties (h' ! cleaned)))]))
          else cleanLoopH n cleaned keys h)"

text \<open>The two tests of the loop, named.\<close>

definition h_dropped :: "(string \<times> hval) list \<Rightarrow> string \<Rightarrow> bool" where
  "h_dropped props key =
     (key_is key ''$schema'' \<or> key_is key ''additionalProperties''
      \<or> key_is key ''title'' \<or> key_is key ''examples''
      \<or> (key_is key ''format'' \<and> map_of props ''type'' = Some (HStr ''string'')))"

definition h_recursed :: "heap \<Rightarrow> string \<Rightarrow> hval \<Rightarrow> bool" where
  "h_recursed h key v =
     ((key_is key ''properties'' \<and> h_typeof_object v)
      \<or> (key_is key ''items'' \<and> h_typeof_object v)
      \<or> (h_typeof_object v \<and> \<not> h_isArray h v))"

text \<open>
  \<open>denotes D h v j\<close>: in the store \<open>h\<close> the value \<open>v\<close> is the JSON value \<open>j\<close>, and the objects
  it is made of are at addresses of \<open>D\<close>. An object may be shared; a value on a cycle
  denotes nothing.
\<close>

inductive denotes :: "nat set \<Rightarrow> heap \<Rightarrow> hval \<Rightarrow> json \<Rightarrow> bool" for D h where
  dNull: "denotes D h HNull JNull"
| dBool: "denotes D h (HBool b) (JBool b)"
| dNum: "denotes D h (HNum n) (JNum n)"
| dStr: "denotes D h (HStr s) (JStr s)"
| dArr: "a \<in> D \<Longrightarrow> a < length h \<Longrightarrow> h ! a = HArray ys \<Longrightarrow>
         list_all2 (denotes D h) ys xs \<Longrightarrow> denotes D h (HRef a) (JArr xs)"
| dObj: "a \<in> D \<Longrightarrow> a < length h \<Longrightarrow> h ! a = HObject props \<Longrightarrow>
         distinct (map fst props) \<Longrightarrow> map fst props = map fst kvs \<Longrightarrow>
         list_all2 (denotes D h) (map snd props) (map snd kvs) \<Longrightarrow>
         denotes D h (HRef a) (JObj kvs)"

text \<open>
  \<open>cleans x\<close>: on every value that denotes \<open>x\<close> the call returns, leaves the objects of the
  store as they were, and returns a value that denotes \<open>cleanJsonSchema x\<close>.
\<close>

definition cleans :: "json \<Rightarrow> bool" where
  "cleans x =
     (\<forall>D h v. denotes D h v x \<longrightarrow> D \<subseteq> {..<length h} \<longrightarrow>
        (\<exists>n h' v'. cleanJsonSchemaH n h v = Some (h', v') \<and> take (length h) h' = h
           \<and> denotes (D \<union> {length h..<length h'}) h' v' (cleanJsonSchema x)))"

text \<open>A store of four objects, and the schema that the object at address 0 denotes.\<close>

definition example_store :: heap where
  "example_store =
     [HObject [(''title'', HStr ''T''), (''type'', HStr ''object''),
               (''properties'', HRef 1), (''required'', HRef 3)],
      HObject [(''day'', HRef 2)],
      HObject [(''type'', HStr ''string''), (''format'', HStr ''date'')],
      HArray [HStr ''day'']]"

definition example_schema :: json where
  "example_schema =
     JObj [(''title'', JStr ''T''), (''type'', JStr ''object''),
           (''properties'', JObj [(''day'', JObj [(''type'', JStr ''string''),
                                                  (''format'', JStr ''date'')])]),
           (''required'', JArr [JStr ''day''])]"

section \<open>Request validation and the routing guard\<close>

text \<open>
  \<^verbatim>\<open>formatAnthropicErrorResponse\<close> (lines 6-22): the message, the error type and the HTTP
  status of an error response. The one message that is not a constant,
  \<^verbatim>\<open>Model '${requestBody.model}' not found\<close>, is kept as the value it prints.
\<close>

datatype error_message = Message string | ModelNotFound "json option"

record error_response =
  err_message :: error_message
  err_type :: string
  err_status :: nat

definition formatAnthropicErrorResponse :: "error_message \<Rightarrow> string \<Rightarrow> nat \<Rightarrow> error_response" where
  "formatAnthropicErrorResponse message type status =
     \<lparr>err_message = message, err_type = type, err_status = status\<rparr>"

text \<open>
  \<^verbatim>\<open>requestBody.max_tokens <= 0\<close>. A number is compared as it is; \<^verbatim>\<open>true\<close> counts as 1,
  \<^verbatim>\<open>false\<close> and \<^verbatim>\<open>null\<close> as 0, \<^verbatim>\<open>undefined\<close> as NaN, which compares false. What the
  comparison gives for a string, an array or an object, after JavaScript's conversion to
  a number, is the parameter \<open>coerced\<close>.
\<close>

fun le_zero :: "(json \<Rightarrow> bool) \<Rightarrow> json option \<Rightarrow> bool" where
  "le_zero coerced None = False"
| "le_zero coerced (Some JNull) = True"
| "le_zero coerced (Some (JBool b)) = (\<not> b)"
| "le_zero coerced (Some (JNum n)) = (n \<le> 0)"
| "le_zero coerced (Some v) = coerced v"

fun array_elements :: "json option \<Rightarrow> json list" where
  "array_elements (Some (JArr xs)) = xs"
| "array_elements v = []"

fun is_array :: "json option \<Rightarrow> bool" where
  "is_array (Some (JArr xs)) = True"
| "is_array v = False"

text \<open>
  \<^verbatim>\<open>validateRequest\<close> (lines 60-93). \<open>validateMessages\<close> is the loop over the messages
  (lines 80-87), \<open>validateBody\<close> the body of the \<^verbatim>\<open>try\<close> after the request body has been
  parsed. The argument of \<open>validateRequest\<close> is the parsed body, \<open>None\<close> when
  \<^verbatim>\<open>request.clone().json()\<close> rejects a body that is not JSON. The \<^verbatim>\<open>catch\<close> turns every
  exception into the last error response.
\<close>

fun validateMessages :: "json list \<Rightarrow> js_error + error_response option" where
  "validateMessages [] = Inr None"
| "validateMessages (message # rest) =
     (case get_prop message ''role'' of
        Inl e \<Rightarrow> Inl e
      | Inr role \<Rightarrow>
          if \<not> truthy role \<or> (role \<noteq> Some (JStr ''user'') \<and> role \<noteq> Some (JStr ''assistant''))
          then Inr (Some (formatAnthropicErrorResponse
                 (Message ''Each message must have a valid role (user or assistant)'')
                 ''invalid_request_error'' 400))
          else (case get_prop message ''content'' of
                  Inl e \<Rightarrow> Inl e
                | Inr content \<Rightarrow>
                    if \<not> truthy content
                    then Inr (Some (formatAnthropicErrorResponse
                           (Message ''Each message must have content'')
                           ''invalid_request_error'' 400))
                    else validateMessages rest))"

definition validateBody :: "(json \<Rightarrow> bool) \<Rightarrow> json \<Rightarrow> js_error + error_response option" where
  "validateBody coerced requestBody =
     (case get_prop requestBody ''model'' of
        Inl e \<Rightarrow> Inl e
      | Inr model \<Rightarrow>
          if \<not> truthy model
          then Inr (Some (formatAnthropicErrorResponse
                 (Message ''Model parameter is required'') ''invalid_request_error'' 400))
          else (case get_prop requestBody ''max_tokens'' of
                  Inl e \<Rightarrow> Inl e
                | Inr max_tokens \<Rightarrow>
                    if \<not> truthy max_tokens \<or> le_zero coerced max_tokens
                    then Inr (Some (formatAnthropicErrorResponse
                           (Message ''max_tokens parameter is required and must be positive'')
                           ''invalid_request_error'' 400))
                    else (case get_prop requestBody ''messages'' of
                            Inl e \<Rightarrow> Inl e
                          | Inr messages \<Rightarrow>
                              if \<not> truthy messages \<or> \<not> is_array messages
                                 \<or> length (array_elements messages) = 0
                              then Inr (Some (formatAnthropicErrorResponse
                                     (Message ''Messages parameter is required and must be a non-empty array'')
                                     ''invalid_request_error'' 400))
                              else validateMessages (array_elements messages))))"

definition validateRequest :: "(json \<Rightarrow> bool) \<Rightarrow> json option \<Rightarrow> error_response option" where
  "validateRequest coerced body =
     (case body of
        None \<Rightarrow> Some (formatAnthropicErrorResponse
                  (Message ''Invalid request body JSON'') ''invalid_request_error'' 400)
      | Some requestBody \<Rightarrow>
          (case validateBody coerced requestBody of
             Inl e \<Rightarrow> Some (formatAnthropicErrorResponse
                        (Message ''Invalid request body JSON'') ''invalid_request_error'' 400)
           | Inr r \<Rightarrow> r))"

text \<open>
  \<^verbatim>\<open>handleAnthropicMessagesRequest\<close> up to the call of the provider (lines 753-784). The
  handler either answers with an error response of its own, or goes on to
  \<^verbatim>\<open>convertToProviderRequest\<close> and \<^verbatim>\<open>fetch\<close> with the model and the provider it split
  from the model name (\<open>CallProvider\<close>); an exception it does not catch is the \<open>Inl\<close>
  result. \<open>has_separator\<close> is \<^verbatim>\<open>modelName.indexOf('#') >= 0\<close>: a string and an array have
  the method, a call on any other value raises a TypeError. \<open>split_model\<close> is
  \<^verbatim>\<open>const [model, provider] = modelName.split('#')\<close>, a method of strings only.
\<close>

datatype handler_outcome = Respond error_response | CallProvider string "string option"

fun has_separator :: "json option \<Rightarrow> js_error + bool" where
  "has_separator (Some (JStr s)) = Inr (CHR ''#'' \<in> set s)"
| "has_separator (Some (JArr xs)) = Inr (JStr ''#'' \<in> set xs)"
| "has_separator v = Inl TypeError"

fun split_model :: "json option \<Rightarrow> js_error + string \<times> string option" where
  "split_model (Some (JStr s)) =
     Inr (takeWhile (\<lambda>c. c \<noteq> CHR ''#'') s,
          case dropWhile (\<lambda>c. c \<noteq> CHR ''#'') s of
            [] \<Rightarrow> None
          | c # rest \<Rightarrow> Some (takeWhile (\<lambda>c. c \<noteq> CHR ''#'') rest))"
| "split_model v = Inl TypeError"

definition handleAnthropicMessagesRequest ::
  "(json \<Rightarrow> bool) \<Rightarrow> json option \<Rightarrow> js_error + handler_outcome" where
  "handleAnthropicMessagesRequest coerced body =
     (case validateRequest coerced body of
        Some validationResult \<Rightarrow> Inr (Respond validationResult)
      | None \<Rightarrow>
          (case body of
             None \<Rightarrow> Inl SyntaxError
           | Some requestBody \<Rightarrow>
               (case get_prop requestBody ''model'' of
                  Inl e \<Rightarrow> Inl e
                | Inr modelName \<Rightarrow>
                    if \<not> truthy modelName
                    then Inr (Respond (formatAnthropicErrorResponse
                           (ModelNotFound modelName) ''model_not_found'' 404))
                    else (case has_separator modelName of
                            Inl e \<Rightarrow> Inl e
                          | Inr found \<Rightarrow>
                              if \<not> found
                              then Inr (Respond (formatAnthropicErrorResponse
                                     (ModelNotFound modelName) ''model_not_found'' 404))
                              else (case split_model modelName of
                                      Inl e \<Rightarrow> Inl e
                                    | Inr (model, provider) \<Rightarrow>
                                        Inr (CallProvider model provider))))))"

section \<open>The non-streaming response translator\<close>

text \<open>
  The provider's chat completion, as the OpenAI format types it, with every field the
  translator reads; a field that is absent or \<^verbatim>\<open>null\<close> is \<open>None\<close>. The arguments of a
  tool call are passed to \<^verbatim>\<open>JSON.parse\<close>, which tells the two apart: it throws on
  \<^verbatim>\<open>undefined\<close> and returns \<^verbatim>\<open>null\<close> on \<^verbatim>\<open>null\<close>.
\<close>

datatype arguments = ArgumentsAbsent | ArgumentsNull | ArgumentsString string

record function_call =
  fc_name :: "string option"
  fc_arguments :: arguments

record tool_call =
  tc_id :: "string option"
  tc_function :: "function_call option"

record chat_message =
  msg_content :: "string option"
  msg_tool_calls :: "tool_call list option"

record completion_choice =
  cc_message :: "chat_message option"
  cc_finish_reason :: "string option"

record completion_usage =
  prompt_tokens :: "int option"
  completion_tokens :: "int option"

record chat_completion =
  cmpl_choices :: "completion_choice list option"
  cmpl_usage :: "completion_usage option"

text \<open>
  The Anthropic message the translator builds, without its constant \<^verbatim>\<open>type\<close> and
  \<^verbatim>\<open>role\<close>; the HTTP status and headers of the response around it are left out.
\<close>

datatype content_item = Text string | ToolUse "string option" "string option" json

record anthropic_usage =
  input_tokens :: "int option"
  output_tokens :: "int option"

record anthropic_response =
  resp_id :: string
  resp_content :: "content_item list"
  resp_stop_reason :: "string option"
  resp_usage :: "anthropic_usage option"

text \<open>
  \<^verbatim>\<open>convertNormalResponse\<close> (lines 384-436). \<open>JSON_parse\<close> is the platform's
  \<^verbatim>\<open>JSON.parse\<close> on a string, \<open>None\<close> where it throws a SyntaxError; \<open>parseArguments\<close> is
  \<^verbatim>\<open>JSON.parse(toolCall.function.arguments)\<close>, which throws on \<^verbatim>\<open>undefined\<close> (the text
  \<^verbatim>\<open>undefined\<close> is not JSON) and returns \<^verbatim>\<open>null\<close> on \<^verbatim>\<open>null\<close> (the text \<^verbatim>\<open>null\<close> is).
  \<open>fresh_id\<close> is the result of \<^verbatim>\<open>generateId()\<close>. \<open>convertToolCalls\<close> is the loop of lines
  406-413; reading \<^verbatim>\<open>toolCall.function.name\<close> of a tool call without a \<^verbatim>\<open>function\<close>
  raises a TypeError, as does reading \<^verbatim>\<open>message.content\<close> of a choice without a message.
  No exception is caught here.
\<close>

fun parseArguments :: "(string \<Rightarrow> json option) \<Rightarrow> arguments \<Rightarrow> json option" where
  "parseArguments JSON_parse ArgumentsAbsent = None"
| "parseArguments JSON_parse ArgumentsNull = Some JNull"
| "parseArguments JSON_parse (ArgumentsString a) = JSON_parse a"

fun convertToolCalls ::
  "(string \<Rightarrow> json option) \<Rightarrow> tool_call list \<Rightarrow> content_item list \<Rightarrow> js_error + content_item list"
where
  "convertToolCalls JSON_parse [] content = Inr content"
| "convertToolCalls JSON_parse (toolCall # rest) content =
     (case tc_function toolCall of
        None \<Rightarrow> Inl TypeError
      | Some f \<Rightarrow>
          (case parseArguments JSON_parse (fc_arguments f) of
             None \<Rightarrow> Inl SyntaxError
           | Some input \<Rightarrow>
               convertToolCalls JSON_parse rest
                 (content @ [ToolUse (tc_id toolCall) (fc_name f) input])))"

definition convertUsage :: "completion_usage option \<Rightarrow> anthropic_usage option" where
  "convertUsage u =
     (case u of
        None \<Rightarrow> None
      | Some usage \<Rightarrow>
          Some \<lparr>input_tokens = prompt_tokens usage, output_tokens = completion_tokens usage\<rparr>)"

definition convertNormalResponse ::
  "(string \<Rightarrow> json option) \<Rightarrow> string \<Rightarrow> chat_completion \<Rightarrow> js_error + anthropic_response" where
  "convertNormalResponse JSON_parse fresh_id openAIData =
     (case cmpl_choices openAIData of
        Some (choice # others) \<Rightarrow>
          (case cc_message choice of
             None \<Rightarrow> Inl TypeError
           | Some message \<Rightarrow>
               (let content = (if truthy_str (msg_content message)
                               then [Text (or_empty (msg_content message))] else [])
                in case msg_tool_calls message of
                     Some toolCalls \<Rightarrow>
                       (case convertToolCalls JSON_parse toolCalls content of
                          Inl e \<Rightarrow> Inl e
                        | Inr content' \<Rightarrow>
                            Inr \<lparr>resp_id = fresh_id, resp_content = content',
                                 resp_stop_reason = Some ''tool_use'',
                                 resp_usage = convertUsage (cmpl_usage openAIData)\<rparr>)
                   | None \<Rightarrow>
                       Inr \<lparr>resp_id = fresh_id, resp_content = content,
                            resp_stop_reason =
                              (if cc_finish_reason choice = Some ''length''
                               then Some ''max_tokens'' else Some ''end_turn''),
                            resp_usage = convertUsage (cmpl_usage openAIData)\<rparr>))
      | _ \<Rightarrow>
          Inr \<lparr>resp_id = fresh_id, resp_content = [], resp_stop_reason = None,
               resp_usage = convertUsage (cmpl_usage openAIData)\<rparr>)"

section \<open>The streaming re-encoder\<close>

subsection \<open>Events and chunks\<close>

text \<open>
  An outbound event stands for the text \<^verbatim>\<open>event: <type>\ndata: <JSON>\n\n\<close> the code
  enqueues. \<open>MessageStart\<close> leaves out the random message id. \<open>ToolUseBlock id name\<close> is
  \<^verbatim>\<open>{type: 'tool_use', id, name, input: {}}\<close>, \<open>TextBlock\<close> is \<^verbatim>\<open>{type: 'text', text: ''}\<close>,
  and \<open>InputJsonDelta args\<close> carries \<^verbatim>\<open>partial_json: JSON.stringify(args)\<close>.
\<close>

datatype content_block = TextBlock | ToolUseBlock string string

datatype block_delta = TextDelta string | InputJsonDelta json

datatype event =
    MessageStart
  | ContentBlockStart nat content_block
  | ContentBlockDelta nat block_delta
  | ContentBlockStop nat
  | MessageStop

text \<open>
  A parsed line of the provider's stream, as the OpenAI streaming format types it,
  with the fields the re-encoder reads; an absent or \<^verbatim>\<open>null\<close> field is \<open>None\<close>. A parsed
  value that is no object, or has no \<^verbatim>\<open>choices\<close>, is a chunk whose \<open>chunk_choices\<close> is
  \<open>None\<close>.
\<close>

record function_delta =
  fd_name :: "string option"
  fd_arguments :: "string option"

record tool_call_delta =
  tcd_index :: "nat option"
  tcd_id :: "string option"
  tcd_function :: "function_delta option"

record message_delta =
  md_content :: "string option"
  md_tool_calls :: "tool_call_delta list option"

record chunk_choice =
  ch_delta :: "message_delta option"
  ch_finish_reason :: "string option"

record completion_chunk =
  chunk_choices :: "chunk_choice list option"

subsection \<open>One line of the stream\<close>

text \<open>
  The entries of \<^verbatim>\<open>toolCallsBuffer\<close>, a \<^verbatim>\<open>Map\<close> from the position of a tool call to what
  has arrived of it.
\<close>

record buffered_call =
  bc_id :: "string option"
  bc_name :: "string option"
  bc_arguments :: "string option"

type_synonym tool_calls_buffer = "nat \<Rightarrow> buffered_call option"

text \<open>What the callback returns for a line (\<open>None\<close> is its \<^verbatim>\<open>null\<close>).\<close>

record line_result =
  r_events :: "event list"
  r_textBlockIndex :: nat
  r_toolUseBlockIndex :: nat

text \<open>Lines 499-507: the fields of a delta that are truthy update the buffered call.\<close>

definition updateBufferedCall :: "tool_call_delta \<Rightarrow> buffered_call \<Rightarrow> buffered_call" where
  "updateBufferedCall toolCall bufferedCall =
     (let b1 = (if truthy_str (tcd_id toolCall)
                then bufferedCall\<lparr>bc_id := tcd_id toolCall\<rparr> else bufferedCall);
          name = (case tcd_function toolCall of None \<Rightarrow> None | Some f \<Rightarrow> fd_name f);
          b2 = (if truthy_str name then b1\<lparr>bc_name := name\<rparr> else b1);
          arguments = (case tcd_function toolCall of None \<Rightarrow> None | Some f \<Rightarrow> fd_arguments f)
      in if truthy_str arguments
         then b2\<lparr>bc_arguments := Some (or_empty (bc_arguments b2) @ or_empty arguments)\<rparr>
         else b2)"

text \<open>
  Lines 490-552: the body of the loop over \<^verbatim>\<open>delta.tool_calls\<close>. Its state is the
  buffer, the events of this line so far and \<^verbatim>\<open>currentToolIndex\<close>. A failed
  \<^verbatim>\<open>JSON.parse\<close> of the accumulated arguments is caught and leaves the call buffered.
\<close>

definition processToolCall ::
  "(string \<Rightarrow> json option) \<Rightarrow> nat \<Rightarrow> tool_call_delta \<Rightarrow>
   tool_calls_buffer \<times> event list \<times> nat \<Rightarrow> tool_calls_buffer \<times> event list \<times> nat" where
  "processToolCall JSON_parse currentTextIndex toolCall state =
     (case state of (toolCallsBuffer, events, currentToolIndex) \<Rightarrow>
        let index = (case tcd_index toolCall of None \<Rightarrow> 0 | Some i \<Rightarrow> i);
            bufferedCall = updateBufferedCall toolCall
              (case toolCallsBuffer index of
                 None \<Rightarrow> \<lparr>bc_id = None, bc_name = None, bc_arguments = None\<rparr>
               | Some b \<Rightarrow> b);
            buffered = toolCallsBuffer(index \<mapsto> bufferedCall)
        in if truthy_str (bc_id bufferedCall) \<and> truthy_str (bc_name bufferedCall)
              \<and> truthy_str (bc_arguments bufferedCall)
           then (case JSON_parse (or_empty (bc_arguments bufferedCall)) of
                   None \<Rightarrow> (buffered, events, currentToolIndex)
                 | Some args \<Rightarrow>
                     let blockIndex = (if currentTextIndex > 0 then 1 + index else index)
                     in (toolCallsBuffer(index := None),
                         events @
                           [ContentBlockStart blockIndex
                              (ToolUseBlock (or_empty (bc_id bufferedCall))
                                 (or_empty (bc_name bufferedCall))),
                            ContentBlockDelta blockIndex (InputJsonDelta args),
                            ContentBlockStop blockIndex],
                         max currentToolIndex (index + 1)))
           else (buffered, events, currentToolIndex))"

text \<open>
  Lines 444-578: the callback \<^verbatim>\<open>convertStreamResponse\<close> passes to
  \<^verbatim>\<open>processProviderStream\<close>, with the buffer it closes over as an argument and a
  result. \<open>parse_chunk\<close> is \<^verbatim>\<open>JSON.parse\<close> on the payload of a line, \<open>None\<close> where it
  throws; \<open>JSON_parse\<close> is \<^verbatim>\<open>JSON.parse\<close> on the arguments of a tool call. The outer
  \<^verbatim>\<open>catch\<close> returns \<^verbatim>\<open>null\<close>: for a payload that is not JSON, and for the TypeError
  of reading \<^verbatim>\<open>delta.content\<close> when the choice has no \<^verbatim>\<open>delta\<close>.
\<close>

definition processLine ::
  "(string \<Rightarrow> completion_chunk option) \<Rightarrow> (string \<Rightarrow> json option) \<Rightarrow>
   tool_calls_buffer \<Rightarrow> string \<Rightarrow> nat \<Rightarrow> nat \<Rightarrow> line_result option \<times> tool_calls_buffer" where
  "processLine parse_chunk JSON_parse toolCallsBuffer jsonStr textIndex toolIndex =
     (case parse_chunk jsonStr of
        None \<Rightarrow> (None, toolCallsBuffer)
      | Some openAIData \<Rightarrow>
          (case chunk_choices openAIData of
             Some (choice # others) \<Rightarrow>
               (case ch_delta choice of
                  None \<Rightarrow> (None, toolCallsBuffer)
                | Some delta \<Rightarrow>
                    (let has_text = truthy_str (md_content delta);
                         events1 =
                           (if has_text
                            then (if textIndex = 0 then [ContentBlockStart 0 TextBlock] else [])
                                 @ [ContentBlockDelta 0 (TextDelta (or_empty (md_content delta)))]
                            else []);
                         currentTextIndex = (if has_text then 1 else textIndex)
                     in case (case md_tool_calls delta of
                                None \<Rightarrow> (toolCallsBuffer, events1, toolIndex)
                              | Some toolCalls \<Rightarrow>
                                  fold (processToolCall JSON_parse currentTextIndex) toolCalls
                                    (toolCallsBuffer, events1, toolIndex))
                        of (toolCallsBuffer', events2, currentToolIndex) \<Rightarrow>
                          (Some \<lparr>r_events =
                                   (if truthy_str (ch_finish_reason choice) \<and> currentTextIndex > 0
                                    then events2 @ [ContentBlockStop 0] else events2),
                                 r_textBlockIndex = currentTextIndex,
                                 r_toolUseBlockIndex = currentToolIndex\<rparr>,
                           toolCallsBuffer')))
           | _ \<Rightarrow> (None, toolCallsBuffer)))"

subsection \<open>The stream\<close>

text \<open>
  Strings are lists of 8-bit characters, and a chunk of the stream is the text
  \<^verbatim>\<open>decoder.decode(value, { stream: true })\<close> returns for it: the \<^verbatim>\<open>TextDecoder\<close> is taken
  to return each chunk as it was sent. A character is a code unit below 256, so that a
  text with a character beyond U+00FF is not a string here. \<open>trim\<close> removes the white
  space and the line terminators of ECMAScript from both ends: of the characters below
  256 these are U+0009 to U+000D, U+0020 and U+00A0 (the others, U+1680, U+2000 to
  U+200A, U+2028, U+2029, U+202F, U+205F, U+3000 and U+FEFF, are no characters here).
\<close>

definition is_space :: "char \<Rightarrow> bool" where
  "is_space c =
     (c \<in> set [CHR 0x09, CHR 0x0A, CHR 0x0B, CHR 0x0C, CHR 0x0D, CHR 0x20, CHR 0xA0])"

definition trim :: "string \<Rightarrow> string" where
  "trim s = rev (dropWhile is_space (rev (dropWhile is_space s)))"

text \<open>\<^verbatim>\<open>chunk.split('\n')\<close>: the segments between the newlines, at least one.\<close>

fun split_lines :: "string \<Rightarrow> string list" where
  "split_lines [] = [[]]"
| "split_lines (c # cs) =
     (if c = CHR 0x0A then [] # split_lines cs
      else (case split_lines cs of
              [] \<Rightarrow> [[c]]
            | l # ls \<Rightarrow> (c # l) # ls))"

text \<open>
  The state of \<^verbatim>\<open>processProviderStream\<close>: its local variables, the state the callback
  closes over, and the events enqueued on the controller so far.
\<close>

record 'c stream_state =
  st_buffer :: string
  st_hasStartedContent :: bool
  st_toolUseBlockIndex :: nat
  st_closure :: 'c
  st_enqueued :: "event list"

type_synonym 'c line_processor = "'c \<Rightarrow> string \<Rightarrow> nat \<Rightarrow> nat \<Rightarrow> line_result option \<times> 'c"

text \<open>
  Lines 667-677, and 689-698 and 704-713 in the final block, which leave
  \<^verbatim>\<open>toolUseBlockIndex\<close> as it is (\<open>keep_tool_index\<close>).
\<close>

definition callProcessLine ::
  "'c line_processor \<Rightarrow> bool \<Rightarrow> string \<Rightarrow> 'c stream_state \<Rightarrow> 'c stream_state" where
  "callProcessLine process_line keep_tool_index jsonStr st =
     (case process_line (st_closure st) jsonStr (if st_hasStartedContent st then 1 else 0)
             (st_toolUseBlockIndex st) of
        (None, closure) \<Rightarrow> st\<lparr>st_closure := closure\<rparr>
      | (Some result, closure) \<Rightarrow>
          st\<lparr>st_hasStartedContent :=
                (if r_textBlockIndex result > 0 then True else st_hasStartedContent st),
             st_toolUseBlockIndex :=
                (if keep_tool_index then st_toolUseBlockIndex st
                 else r_toolUseBlockIndex result),
             st_closure := closure,
             st_enqueued := st_enqueued st @ r_events result\<rparr>)"

text \<open>Lines 645-678: the body of the loop over the complete lines of a read.\<close>

definition handleLine :: "'c line_processor \<Rightarrow> string \<Rightarrow> 'c stream_state \<Rightarrow> 'c stream_state" where
  "handleLine process_line line st =
     (if trim line = [] \<or> take 6 line \<noteq> ''data: '' then st
      else let jsonStr = trim (drop 6 line)
           in if jsonStr = ''[DONE]''
              then (if st_hasStartedContent st
                    then st\<lparr>st_enqueued := st_enqueued st @ [ContentBlockStop 0]\<rparr>
                    else st)
              else if jsonStr = [] then st
              else callProcessLine process_line False jsonStr st)"

text \<open>Lines 636-678: one read of the stream that is not the end.\<close>

definition readChunk :: "'c line_processor \<Rightarrow> string \<Rightarrow> 'c stream_state \<Rightarrow> 'c stream_state" where
  "readChunk process_line value st =
     (let lines = split_lines (st_buffer st @ value)
      in fold (handleLine process_line) (butlast lines) (st\<lparr>st_buffer := last lines\<rparr>))"

text \<open>
  Lines 680-735: the \<^verbatim>\<open>finally\<close> block. \<open>valid_json\<close> says whether
  \<^verbatim>\<open>JSON.parse(buffer.trim())\<close> returns.
\<close>

definition finalBuffer ::
  "(string \<Rightarrow> bool) \<Rightarrow> 'c line_processor \<Rightarrow> 'c stream_state \<Rightarrow> 'c stream_state" where
  "finalBuffer valid_json process_line st =
     (let buffer = st_buffer st
      in if trim buffer = [] then st
         else if take 6 (trim buffer) = ''data: ''
         then (let finalJsonStr = trim (drop 6 buffer)
               in if finalJsonStr \<noteq> [] \<and> finalJsonStr \<noteq> ''[DONE]''
                  then callProcessLine process_line True finalJsonStr st
                  else st)
         else if valid_json (trim buffer)
         then callProcessLine process_line True (trim buffer) st
         else st)"

definition closeStream ::
  "(string \<Rightarrow> bool) \<Rightarrow> 'c line_processor \<Rightarrow> 'c stream_state \<Rightarrow> event list" where
  "closeStream valid_json process_line st =
     (let st' = finalBuffer valid_json process_line st
      in st_enqueued st'
         @ (if st_hasStartedContent st' then [ContentBlockStop 0] else [])
         @ [MessageStop])"

text \<open>
  \<^verbatim>\<open>processProviderStream\<close> (lines 610-748): the events enqueued for a response whose
  body delivers the given chunks and then ends; \<open>None\<close> is a response without a body.
\<close>

definition openStream :: "'c \<Rightarrow> 'c stream_state" where
  "openStream closure =
     \<lparr>st_buffer = [], st_hasStartedContent = False, st_toolUseBlockIndex = 0,
      st_closure = closure, st_enqueued = [MessageStart]\<rparr>"

definition processProviderStream ::
  "(string \<Rightarrow> bool) \<Rightarrow> 'c line_processor \<Rightarrow> 'c \<Rightarrow> string list option \<Rightarrow> event list" where
  "processProviderStream valid_json process_line closure body =
     (case body of
        None \<Rightarrow> []
      | Some chunks \<Rightarrow>
          closeStream valid_json process_line
            (fold (readChunk process_line) chunks (openStream closure)))"

text \<open>\<^verbatim>\<open>convertStreamResponse\<close> (lines 441-579), with an empty \<^verbatim>\<open>toolCallsBuffer\<close>.\<close>

definition convertStreamResponse ::
  "(string \<Rightarrow> completion_chunk option) \<Rightarrow> (string \<Rightarrow> json option) \<Rightarrow>
   string list option \<Rightarrow> event list" where
  "convertStreamResponse parse_chunk JSON_parse body =
     processProviderStream (\<lambda>s. parse_chunk s \<noteq> None)
       (processLine parse_chunk JSON_parse) (\<lambda>index. None) body"

section \<open>Auxiliary definitions for the statements\<close>

text \<open>The property \<open>key\<close> of an object; \<open>None\<close> for any other value.\<close>

fun field :: "json \<Rightarrow> string \<Rightarrow> json option" where
  "field (JObj kvs) key = map_of kvs key"
| "field v key = None"


text \<open>
  \<^verbatim>\<open>JSON.parse\<close> on the payloads and on the tool-call arguments of the example streams
  below; it is not called on any other text there. \<open>CHR 0x5C\<close> is the backslash before a
  quote inside a JSON string.
\<close>

definition example_chunk :: "string \<Rightarrow> completion_chunk option" where
  \<open>example_chunk = map_of
    [(''{"choices":[{"delta":{"content":"Hi"}}]}'',
      \<lparr>chunk_choices = Some [\<lparr>ch_delta = Some \<lparr>md_content = Some ''Hi'', md_tool_calls = None\<rparr>,
         ch_finish_reason = None\<rparr>]\<rparr>),
     (''{"choices":[{"delta":{"content":"!"}}]}'',
      \<lparr>chunk_choices = Some [\<lparr>ch_delta = Some \<lparr>md_content = Some ''!'', md_tool_calls = None\<rparr>,
         ch_finish_reason = None\<rparr>]\<rparr>),
     (''{"choices":[{"delta":{},"finish_reason":"stop"}]}'',
      \<lparr>chunk_choices = Some [\<lparr>ch_delta = Some \<lparr>md_content = None, md_tool_calls = None\<rparr>,
         ch_finish_reason = Some ''stop''\<rparr>]\<rparr>),
     (''{"choices":[{"delta":{"tool_calls":[{"index":0,"id":"call_1"}]}}]}'',
      \<lparr>chunk_choices = Some [\<lparr>ch_delta = Some \<lparr>md_content = None, md_tool_calls = Some
           [\<lparr>tcd_index = Some 0, tcd_id = Some ''call_1'', tcd_function = None\<rparr>]\<rparr>,
         ch_finish_reason = None\<rparr>]\<rparr>),
     (''{"choices":[{"delta":{"tool_calls":[{"index":0,"function":{"name":"get_weather"}}]}}]}'',
      \<lparr>chunk_choices = Some [\<lparr>ch_delta = Some \<lparr>md_content = None, md_tool_calls = Some
           [\<lparr>tcd_index = Some 0, tcd_id = None, tcd_function =
              Some \<lparr>fd_name = Some ''get_weather'', fd_arguments = None\<rparr>\<rparr>]\<rparr>,
         ch_finish_reason = None\<rparr>]\<rparr>),
     (''{"choices":[{"delta":{"tool_calls":[{"index":0,"function":{"arguments":"{''
        @ [CHR 0x5C] @ ''"a'' @ [CHR 0x5C] @ ''":"}}]}}]}'',
      \<lparr>chunk_choices = Some [\<lparr>ch_delta = Some \<lparr>md_content = None, md_tool_calls = Some
           [\<lparr>tcd_index = Some 0, tcd_id = None, tcd_function =
              Some \<lparr>fd_name = None, fd_arguments = Some ''{"a":''\<rparr>\<rparr>]\<rparr>,
         ch_finish_reason = None\<rparr>]\<rparr>),
     (''{"choices":[{"delta":{"tool_calls":[{"index":0,"function":{"arguments":"1}"}}]}}]}'',
      \<lparr>chunk_choices = Some [\<lparr>ch_delta = Some \<lparr>md_content = None, md_tool_calls = Some
           [\<lparr>tcd_index = Some 0, tcd_id = None, tcd_function =
              Some \<lparr>fd_name = None, fd_arguments = Some ''1}''\<rparr>\<rparr>]\<rparr>,
         ch_finish_reason = None\<rparr>]\<rparr>),
     (''{"choices":[{"delta":{"tool_calls":[{"index":0,"id":"call_1","function":{"name":"get_weather","arguments":"{}"}}]}}]}'',
      \<lparr>chunk_choices = Some [\<lparr>ch_delta = Some \<lparr>md_content = None, md_tool_calls = Some
           [\<lparr>tcd_index = Some 0, tcd_id = Some ''call_1'', tcd_function =
              Some \<lparr>fd_name = Some ''get_weather'',
                    fd_arguments = Some ''{}''\<rparr>\<rparr>]\<rparr>,
         ch_finish_reason = None\<rparr>]\<rparr>),
     (''{"choices":[{"delta":{},"finish_reason":"tool_calls"}]}'',
      \<lparr>chunk_choices = Some [\<lparr>ch_delta = Some \<lparr>md_content = None, md_tool_calls = None\<rparr>,
         ch_finish_reason = Some ''tool_calls''\<rparr>]\<rparr>)]\<close>

definition example_json :: "string \<Rightarrow> json option" where
  \<open>example_json = map_of
    [(''{"a":1}'', JObj [(''a'', JNum 1)]),
     (''{}'', JObj [])]\<close>










text \<open>
  \<open>tool_blocks_complete\<close>: every \<^verbatim>\<open>content_block_start\<close> of a tool-use block is followed at
  once by an \<^verbatim>\<open>input_json_delta\<close> and a \<^verbatim>\<open>content_block_stop\<close> for the same index, and
  no \<^verbatim>\<open>input_json_delta\<close> stands anywhere else. \<open>parsed_deltas\<close>: the value of every
  \<^verbatim>\<open>input_json_delta\<close> is the result of a \<^verbatim>\<open>JSON.parse\<close> of a non-empty text that
  returned.
\<close>

fun is_tool_start :: "event \<Rightarrow> bool" where
  "is_tool_start (ContentBlockStart i (ToolUseBlock id' name)) = True"
| "is_tool_start e = False"

fun is_json_delta :: "event \<Rightarrow> bool" where
  "is_json_delta (ContentBlockDelta i (InputJsonDelta args)) = True"
| "is_json_delta e = False"

fun block_index :: "event \<Rightarrow> nat" where
  "block_index (ContentBlockStart i b) = i"
| "block_index (ContentBlockDelta i d) = i"
| "block_index (ContentBlockStop i) = i"
| "block_index e = 0"

fun tool_blocks_complete :: "event list \<Rightarrow> bool" where
  "tool_blocks_complete [] = True"
| "tool_blocks_complete (e # rest) =
     (if is_tool_start e
      then (case rest of
              d # s # rest' \<Rightarrow>
                is_json_delta d \<and> block_index d = block_index e
                \<and> s = ContentBlockStop (block_index e) \<and> tool_blocks_complete rest'
            | _ \<Rightarrow> False)
      else \<not> is_json_delta e \<and> tool_blocks_complete rest)"

definition parsed_deltas :: "(string \<Rightarrow> json option) \<Rightarrow> event list \<Rightarrow> bool" where
  "parsed_deltas JSON_parse evs =
     (\<forall>i args. ContentBlockDelta i (InputJsonDelta args) \<in> set evs \<longrightarrow>
        (\<exists>s. s \<noteq> [] \<and> JSON_parse s = Some args))"

definition tool_blocks_ok :: "(string \<Rightarrow> json option) \<Rightarrow> event list \<Rightarrow> bool" where
  "tool_blocks_ok JSON_parse evs =
     (tool_blocks_complete evs \<and> parsed_deltas JSON_parse evs)"








definition after_lines ::
  "(string \<Rightarrow> completion_chunk option) \<Rightarrow> (string \<Rightarrow> json option) \<Rightarrow> string list \<Rightarrow>
   tool_calls_buffer stream_state" where
  "after_lines parse_chunk JSON_parse ls =
     fold (handleLine (processLine parse_chunk JSON_parse)) ls (openStream (\<lambda>index. None))"




text \<open>
  The complete lines of a text, and what follows its last newline. \<open>flushed S payload\<close>
  are the events of a stream that ends in the state \<open>S\<close> with a last line of the given
  payload: the events enqueued so far, those the callback returns for the payload, the
  final \<^verbatim>\<open>content_block_stop\<close> when text has been sent, and \<^verbatim>\<open>message_stop\<close>.
\<close>

definition complete_lines :: "string \<Rightarrow> string list" where
  "complete_lines text = butlast (split_lines text)"

definition unterminated :: "string \<Rightarrow> string" where
  "unterminated text = last (split_lines text)"

definition flushed ::
  "(string \<Rightarrow> completion_chunk option) \<Rightarrow> (string \<Rightarrow> json option) \<Rightarrow>
   tool_calls_buffer stream_state \<Rightarrow> string \<Rightarrow> event list" where
  "flushed parse_chunk JSON_parse S payload =
     (case processLine parse_chunk JSON_parse (st_closure S) payload
             (if st_hasStartedContent S then 1 else 0) (st_toolUseBlockIndex S) of
        (None, closure) \<Rightarrow>
          st_enqueued S @ (if st_hasStartedContent S then [ContentBlockStop 0] else [])
            @ [MessageStop]
      | (Some result, closure) \<Rightarrow>
          st_enqueued S @ r_events result
            @ (if st_hasStartedContent S \<or> 0 < r_textBlockIndex result
               then [ContentBlockStop 0] else [])
            @ [MessageStop])"
section \<open>Properties of the tool-schema cleaner\<close>

declare show_nat.simps [simp del]

lemma digit_char_is_digit: "n < 10 \<Longrightarrow> is_digit (digit_char n)"
  unfolding is_digit_def digit_char_def by (rule nth_mem) simp

lemma show_nat_digits: "list_all is_digit (show_nat n) \<and> show_nat n \<noteq> []"
proof (induction n rule: show_nat.induct)
  case (1 n)
  show ?case
  proof (cases "n < 10")
    case True
    then show ?thesis
      by (subst show_nat.simps, subst show_nat.simps) (simp add: digit_char_is_digit)
  next
    case False
    with 1 show ?thesis
      by (subst show_nat.simps, subst (2) show_nat.simps) (simp add: digit_char_is_digit)
  qed
qed

lemma show_nat_hd: "\<exists>c cs. show_nat n = c # cs \<and> is_digit c"
  using show_nat_digits [of n] by (cases "show_nat n") auto

lemma show_nat_not_key [simp]:
  "show_nat n \<noteq> ''$schema''" "show_nat n \<noteq> ''additionalProperties''"
  "show_nat n \<noteq> ''title''" "show_nat n \<noteq> ''examples''" "show_nat n \<noteq> ''format''"
  "show_nat n \<noteq> ''properties''" "show_nat n \<noteq> ''items''" "show_nat n \<noteq> ''type''"
proof -
  obtain c cs where h: "show_nat n = c # cs" "is_digit c" using show_nat_hd by blast
  have d: "\<not> is_digit (CHR ''$'')" "\<not> is_digit (CHR ''a'')" "\<not> is_digit (CHR ''t'')"
    "\<not> is_digit (CHR ''e'')" "\<not> is_digit (CHR ''f'')" "\<not> is_digit (CHR ''p'')"
    "\<not> is_digit (CHR ''i'')"
    by (simp_all add: is_digit_def)
  show "show_nat n \<noteq> ''$schema''" "show_nat n \<noteq> ''additionalProperties''"
    "show_nat n \<noteq> ''title''" "show_nat n \<noteq> ''examples''" "show_nat n \<noteq> ''format''"
    "show_nat n \<noteq> ''properties''" "show_nat n \<noteq> ''items''" "show_nat n \<noteq> ''type''"
    using h d by auto
qed

lemma cleanKeys_Cons:
  "cleanKeys t ((key, v) # rest) =
     (if dropped t key then cleanKeys t rest
      else (key, if recursed key v then cleanJsonSchema v else v) # cleanKeys t rest)"
  unfolding dropped_def recursed_def by auto

lemmas [simp del] = cleanKeys.simps(2)

lemma clean_is_str [simp]: "cleanJsonSchema v = JStr s \<longleftrightarrow> v = JStr s"
  by (cases v) auto

lemma map_of_cleanKeys:
  "map_of (cleanKeys t kvs) key =
     (if dropped t key then None
      else map_option (\<lambda>v. if recursed key v then cleanJsonSchema v else v) (map_of kvs key))"
proof (induction kvs)
  case Nil
  then show ?case by simp
next
  case (Cons a kvs)
  obtain k v where a: "a = (k, v)" by (cases a)
  show ?case unfolding a using Cons
    by (cases "k = key") (simp_all add: cleanKeys_Cons)
qed

lemma not_dropped_type [simp]: "\<not> dropped t ''type''"
  by (simp add: dropped_def)

lemma cleanKeys_type:
  "map_of (cleanKeys t kvs) ''type'' = Some (JStr s) \<longleftrightarrow> map_of kvs ''type'' = Some (JStr s)"
  by (cases "map_of kvs ''type''") (auto simp: map_of_cleanKeys)

lemma clean_plain:
  "typeof_object v \<and> \<not> isArray v \<Longrightarrow>
   typeof_object (cleanJsonSchema v) \<and> \<not> isArray (cleanJsonSchema v)"
  by (cases v) auto

lemma recursed_clean: "recursed key v \<Longrightarrow> recursed key (cleanJsonSchema v)"
  by (cases v) (auto simp: recursed_def)

lemma dropped_show_nat [simp]: "\<not> dropped t (show_nat n)"
  by (simp add: dropped_def)

lemma recursed_show_nat [simp]:
  "recursed (show_nat n) v = (typeof_object v \<and> \<not> isArray v)"
  by (auto simp add: recursed_def)

lemma cleanKeys_idem_if:
  "(\<And>key v. (key, v) \<in> set kvs \<Longrightarrow>
      cleanJsonSchema (cleanJsonSchema v) = cleanJsonSchema v) \<Longrightarrow>
   cleanKeys t (cleanKeys t kvs) = cleanKeys t kvs"
proof (induction kvs)
  case Nil
  then show ?case by simp
next
  case (Cons a kvs)
  obtain key v where a: "a = (key, v)" by (cases a)
  have ih: "cleanKeys t (cleanKeys t kvs) = cleanKeys t kvs"
  proof (rule Cons.IH)
    fix key v assume "(key, v) \<in> set kvs"
    then show "cleanJsonSchema (cleanJsonSchema v) = cleanJsonSchema v"
      using Cons.prems [of key v] by simp
  qed
  have v: "cleanJsonSchema (cleanJsonSchema v) = cleanJsonSchema v"
    using Cons.prems [of key v] by (simp add: a)
  show ?case unfolding a
    by (cases "dropped t key"; cases "recursed key v")
      (simp_all add: cleanKeys_Cons ih v recursed_clean)
qed

lemma spread_idem_if:
  "(\<And>x. x \<in> set xs \<Longrightarrow> cleanJsonSchema (cleanJsonSchema x) = cleanJsonSchema x) \<Longrightarrow>
   cleanKeys t (spread i xs) = spread i xs"
proof (induction xs arbitrary: i)
  case Nil
  then show ?case by simp
next
  case (Cons x xs)
  have ih: "cleanKeys t (spread (Suc i) xs) = spread (Suc i) xs"
    using Cons by simp
  have x: "cleanJsonSchema (cleanJsonSchema x) = cleanJsonSchema x"
    using Cons.prems [of x] by simp
  show ?case
  proof (cases "typeof_object x \<and> \<not> isArray x")
    case True
    then show ?thesis using clean_plain [of x] by (simp add: cleanKeys_Cons ih x)
  next
    case False
    then show ?thesis by (auto simp add: cleanKeys_Cons ih)
  qed
qed

lemma cleanJsonSchema_idem: "cleanJsonSchema (cleanJsonSchema v) = cleanJsonSchema v"
proof (induction v)
  case (JArr xs)
  then show ?case by (simp add: spread_idem_if)
next
  case (JObj kvs)
  have "\<And>key v. (key, v) \<in> set kvs \<Longrightarrow>
      cleanJsonSchema (cleanJsonSchema v) = cleanJsonSchema v"
    using JObj by fastforce
  then show ?case by (simp add: cleanKeys_type cleanKeys_idem_if)
qed simp_all

text \<open>No deleted key is left in the result, as far as objects nest in objects.\<close>

lemma not_recursed_no_object:
  "\<not> recursed key v \<Longrightarrow> \<not> has_banned_object v"
  by (cases v) (auto simp: recursed_def)

lemma banned_key_dropped:
  "banned_key obj key = dropped (map_of obj ''type'' = Some (JStr ''string'')) key"
  by (auto simp: banned_key_def dropped_def)

lemma cleanKeys_no_banned_if:
  assumes "\<And>key v. (key, v) \<in> set kvs \<Longrightarrow> \<not> has_banned_object (cleanJsonSchema v)"
    and "(map_of obj ''type'' = Some (JStr ''string'')) = t"
  shows "\<not> has_banned_object_props obj (cleanKeys t kvs)"
  using assms(1)
proof (induction kvs)
  case Nil
  then show ?case by simp
next
  case (Cons a kvs)
  obtain key v where a: "a = (key, v)" by (cases a)
  have ih: "\<not> has_banned_object_props obj (cleanKeys t kvs)"
  proof (rule Cons.IH)
    fix key v assume "(key, v) \<in> set kvs"
    then show "\<not> has_banned_object (cleanJsonSchema v)"
      using Cons.prems [of key v] by simp
  qed
  have v: "\<not> has_banned_object (cleanJsonSchema v)"
    using Cons.prems [of key v] by (simp add: a)
  show ?case unfolding a
    by (cases "dropped t key"; cases "recursed key v")
      (simp_all add: cleanKeys_Cons ih v not_recursed_no_object banned_key_dropped assms(2))
qed

lemma banned_key_show_nat [simp]: "\<not> banned_key obj (show_nat n)"
  by (simp add: banned_key_def)

lemma spread_no_banned_if:
  "(\<And>x. x \<in> set xs \<Longrightarrow> \<not> has_banned_object (cleanJsonSchema x)) \<Longrightarrow>
   \<not> has_banned_object_props obj (spread i xs)"
proof (induction xs arbitrary: i)
  case Nil
  then show ?case by simp
next
  case (Cons x xs)
  have ih: "\<not> has_banned_object_props obj (spread (Suc i) xs)"
    using Cons by simp
  have x: "\<not> has_banned_object (cleanJsonSchema x)"
    using Cons.prems [of x] by simp
  show ?case using ih x by (cases x) simp_all
qed

lemma cleanJsonSchema_no_banned_object: "\<not> has_banned_object (cleanJsonSchema v)"
proof (induction v)
  case (JArr xs)
  then show ?case by (simp add: spread_no_banned_if)
next
  case (JObj kvs)
  have "\<And>key v. (key, v) \<in> set kvs \<Longrightarrow> \<not> has_banned_object (cleanJsonSchema v)"
    using JObj by fastforce
  then show ?case by (simp add: cleanKeys_no_banned_if cleanKeys_type)
qed simp_all

subsection \<open>The cleaner on a store\<close>

text \<open>The loop, with its tests named.\<close>

lemma cleanLoopH_Cons:
  "cleanLoopH n cleaned (key # keys) h =
     (case map_of (own_properties (h ! cleaned)) key of
        None \<Rightarrow> cleanLoopH n cleaned keys h
      | Some v \<Rightarrow>
          if h_dropped (own_properties (h ! cleaned)) key
          then cleanLoopH n cleaned keys
                 (h[cleaned := HObject (delete_key key (own_properties (h ! cleaned)))])
          else if h_recursed h key v
          then (case cleanJsonSchemaH n h v of
                  None \<Rightarrow> None
                | Some (h', v') \<Rightarrow>
                    cleanLoopH n cleaned keys
                      (h'[cleaned := HObject (set_key key v' (own_properties (h' ! cleaned)))]))
          else cleanLoopH n cleaned keys h)"
  unfolding h_dropped_def h_recursed_def
  by (cases "map_of (own_properties (h ! cleaned)) key") auto

lemmas [simp del] = cleanLoopH.simps(2)

text \<open>
  A call allocates and writes to the objects it allocates only: the objects the store
  had before the call are after it what they were.
\<close>

lemma cleanLoopH_frame:
  assumes IH: "\<And>h v h' v'. cleanJsonSchemaH n h v = Some (h', v') \<Longrightarrow>
      length h \<le> length h' \<and> take (length h) h' = h"
  shows "cleanLoopH n c keys h = Some h'' \<Longrightarrow> c < length h \<Longrightarrow>
     length h \<le> length h'' \<and> (\<forall>a < length h. a \<noteq> c \<longrightarrow> h'' ! a = h ! a)"
proof (induction keys arbitrary: h)
  case Nil
  then show ?case by simp
next
  case (Cons key keys)
  show ?case
  proof (cases "map_of (own_properties (h ! c)) key")
    case None
    then show ?thesis using Cons by (simp add: cleanLoopH_Cons)
  next
    case (Some v)
    show ?thesis
    proof (cases "h_dropped (own_properties (h ! c)) key")
      case True
      let ?del = "h[c := HObject (delete_key key (own_properties (h ! c)))]"
      have "cleanLoopH n c keys ?del = Some h''"
        using Cons.prems(1) Some True by (simp add: cleanLoopH_Cons)
      then have "length ?del \<le> length h'' \<and> (\<forall>a < length ?del. a \<noteq> c \<longrightarrow> h'' ! a = ?del ! a)"
        using Cons.IH [of ?del] Cons.prems(2) by simp
      then show ?thesis by simp
    next
      case False
      note nd = this
      show ?thesis
      proof (cases "h_recursed h key v")
        case True
        obtain h1 v1 where c: "cleanJsonSchemaH n h v = Some (h1, v1)"
          and l: "cleanLoopH n c keys
              (h1[c := HObject (set_key key v1 (own_properties (h1 ! c)))]) = Some h''"
          using Cons.prems(1) Some nd True
          by (simp add: cleanLoopH_Cons split: option.splits prod.splits)
        have f1: "length h \<le> length h1" "take (length h) h1 = h"
          using IH [OF c] by simp_all
        have t1: "h1 ! a = h ! a" if "a < length h" for a
          using f1(2) that by (metis nth_take)
        let ?upd = "h1[c := HObject (set_key key v1 (own_properties (h1 ! c)))]"
        have "length ?upd \<le> length h'' \<and> (\<forall>a < length ?upd. a \<noteq> c \<longrightarrow> h'' ! a = ?upd ! a)"
          using Cons.IH [of ?upd] l f1 Cons.prems(2) by simp
        then show ?thesis using f1 t1 by simp
      next
        case False
        then have "cleanLoopH n c keys h = Some h''"
          using Cons.prems(1) Some nd by (simp add: cleanLoopH_Cons)
        then show ?thesis using Cons.IH [of h] Cons.prems(2) by simp
      qed
    qed
  qed
qed

lemma cleanJsonSchemaH_frame:
  "cleanJsonSchemaH n h v = Some (h', v') \<Longrightarrow> length h \<le> length h' \<and> take (length h) h' = h"
proof (induction n arbitrary: h v h' v')
  case 0
  then show ?case by simp
next
  case (Suc n)
  show ?case
  proof (cases v)
    case (HRef a)
    let ?h1 = "h @ [HObject (own_properties (h ! a))]"
    obtain h1 where l: "cleanLoopH n (length h) (map fst (own_properties (h ! a))) ?h1 = Some h1"
      and r: "h' = h1"
      using Suc.prems HRef by (auto split: option.splits)
    have f: "length ?h1 \<le> length h1 \<and> (\<forall>a < length ?h1. a \<noteq> length h \<longrightarrow> h1 ! a = ?h1 ! a)"
      using cleanLoopH_frame [of n "length h" _ ?h1 h1, OF Suc.IH l] by simp
    have "take (length h) h1 = h"
    proof (rule nth_equalityI)
      show "length (take (length h) h1) = length h" using f by simp
      fix i assume "i < length (take (length h) h1)"
      then have i: "i < length h" by simp
      then have "h1 ! i = ?h1 ! i" using f by simp
      then show "take (length h) h1 ! i = h ! i" using i by (simp add: nth_append)
    qed
    then show ?thesis using r f by simp
  qed (use Suc.prems in auto)
qed

text \<open>Fuel.\<close>

lemma cleanLoopH_fuel:
  assumes IH: "\<And>h v r. cleanJsonSchemaH n h v = Some r \<Longrightarrow> cleanJsonSchemaH (n + k) h v = Some r"
  shows "cleanLoopH n c keys h = Some h'' \<Longrightarrow> cleanLoopH (n + k) c keys h = Some h''"
proof (induction keys arbitrary: h)
  case Nil
  then show ?case by simp
next
  case (Cons key keys)
  show ?case
  proof (cases "map_of (own_properties (h ! c)) key")
    case None
    then show ?thesis using Cons by (simp add: cleanLoopH_Cons)
  next
    case (Some v)
    show ?thesis
    proof (cases "h_dropped (own_properties (h ! c)) key")
      case True
      then show ?thesis using Cons Some by (simp add: cleanLoopH_Cons)
    next
      case False
      note nd = this
      show ?thesis
      proof (cases "h_recursed h key v")
        case True
        obtain h1 v1 where c: "cleanJsonSchemaH n h v = Some (h1, v1)"
          and l: "cleanLoopH n c keys
              (h1[c := HObject (set_key key v1 (own_properties (h1 ! c)))]) = Some h''"
          using Cons.prems(1) Some nd True
          by (simp add: cleanLoopH_Cons split: option.splits prod.splits)
        show ?thesis using IH [OF c] Cons.IH [OF l] Some nd True
          by (simp add: cleanLoopH_Cons)
      next
        case False
        then show ?thesis using Cons Some nd by (simp add: cleanLoopH_Cons)
      qed
    qed
  qed
qed

lemma cleanJsonSchemaH_fuel:
  "cleanJsonSchemaH n h v = Some r \<Longrightarrow> cleanJsonSchemaH (n + k) h v = Some r"
proof (induction n arbitrary: h v r)
  case 0
  then show ?case by simp
next
  case (Suc n)
  show ?case
  proof (cases v)
    case (HRef a)
    obtain h1 where l: "cleanLoopH n (length h) (map fst (own_properties (h ! a)))
        (h @ [HObject (own_properties (h ! a))]) = Some h1" and r: "r = (h1, HRef (length h))"
      using Suc.prems HRef by (auto split: option.splits)
    show ?thesis using cleanLoopH_fuel [of n k, OF Suc.IH l] r HRef by simp
  qed (use Suc.prems in auto)
qed

lemma cleanJsonSchemaH_fuel_le:
  "cleanJsonSchemaH n h v = Some r \<Longrightarrow> n \<le> m \<Longrightarrow> cleanJsonSchemaH m h v = Some r"
  using cleanJsonSchemaH_fuel [of n h v r "m - n"] by simp

lemma cleanLoopH_fuel_le:
  assumes "cleanLoopH n c keys h = Some h''" and "n \<le> m"
  shows "cleanLoopH m c keys h = Some h''"
proof -
  have "cleanLoopH (n + (m - n)) c keys h = Some h''"
    by (rule cleanLoopH_fuel [OF cleanJsonSchemaH_fuel assms(1)])
  then show ?thesis using assms(2) by simp
qed

text \<open>A denotation survives a change of the store outside its domain.\<close>

lemma denotes_mono:
  assumes "denotes D h v j" and "D \<subseteq> D'" and "length h \<le> length h'"
    and "\<forall>a \<in> D. h' ! a = h ! a"
  shows "denotes D' h' v j"
  using assms
proof (induction rule: denotes.induct)
  case (dArr a ys xs)
  have "list_all2 (denotes D' h') ys xs"
    using dArr.IH dArr.prems by (auto elim!: list_all2_mono)
  then show ?case using dArr by (auto intro!: denotes.dArr)
next
  case (dObj a props kvs)
  have "list_all2 (denotes D' h') (map snd props) (map snd kvs)"
    using dObj.IH dObj.prems by (auto elim!: list_all2_mono)
  then show ?case using dObj by (auto intro!: denotes.dObj)
qed (auto intro: denotes.intros)

lemma denotes_str: "denotes D h v x \<Longrightarrow> (v = HStr s) = (x = JStr s)"
  by (induction rule: denotes.induct) auto

lemma denotes_typeof: "denotes D h v x \<Longrightarrow> h_typeof_object v = typeof_object x"
  by (induction rule: denotes.induct) auto

lemma denotes_isArray: "denotes D h v x \<Longrightarrow> h_isArray h v = isArray x"
  by (induction rule: denotes.induct) auto

text \<open>Indices are distinct keys; deleting and assigning in the middle of an object.\<close>

lemma digit_char_inj: "n < 10 \<Longrightarrow> m < 10 \<Longrightarrow> digit_char n = digit_char m \<Longrightarrow> n = m"
  unfolding digit_char_def
  by (subst (asm) nth_eq_iff_index_eq) simp_all

lemma show_nat_length: "10 \<le> n \<Longrightarrow> 2 \<le> length (show_nat n)"
  using show_nat_digits [of "n div 10"]
  by (subst show_nat.simps) (cases "show_nat (n div 10)"; simp)

lemma show_nat_inj: "show_nat n = show_nat m \<Longrightarrow> n = m"
proof (induction n arbitrary: m rule: show_nat.induct)
  case (1 n)
  show ?case
  proof (cases "n < 10")
    case True
    note n = this
    show ?thesis
    proof (cases "m < 10")
      case True
      then show ?thesis using n 1(2) digit_char_inj [of n m]
        by (simp add: show_nat.simps [of n] show_nat.simps [of m])
    next
      case False
      then have "2 \<le> length (show_nat m)" using show_nat_length by simp
      moreover have "length (show_nat n) = 1" using n by (simp add: show_nat.simps [of n])
      ultimately show ?thesis using 1(2) by simp
    qed
  next
    case False
    note n = this
    show ?thesis
    proof (cases "m < 10")
      case True
      have "2 \<le> length (show_nat n)" using n show_nat_length by simp
      moreover have "length (show_nat m) = 1" using True by (simp add: show_nat.simps [of m])
      ultimately show ?thesis using 1(2) by simp
    next
      case False
      have e: "show_nat (n div 10) @ [digit_char (n mod 10)]
          = show_nat (m div 10) @ [digit_char (m mod 10)]"
        using 1(2) n False by (simp add: show_nat.simps [of n] show_nat.simps [of m])
      then have "show_nat (n div 10) = show_nat (m div 10)"
        and d: "digit_char (n mod 10) = digit_char (m mod 10)" by simp_all
      then have "n div 10 = m div 10" using 1(1) [OF n] by simp
      moreover have "n mod 10 = m mod 10" using d digit_char_inj by simp
      ultimately show ?thesis by (metis div_mult_mod_eq)
    qed
  qed
qed

lemma distinct_show_nat: "distinct (map show_nat [i..<j])"
  by (simp add: distinct_map inj_on_def show_nat_inj)

lemma key_is_simp [simp]: "key_is a b = (a = b)"
  by (simp add: key_is_def)

lemma h_dropped_dropped:
  "h_dropped props key = dropped (map_of props ''type'' = Some (HStr ''string'')) key"
  by (simp add: h_dropped_def dropped_def)

lemma h_recursed_recursed:
  "denotes D h v x \<Longrightarrow> h_recursed h key v = recursed key x"
  using denotes_typeof [of D h v x] denotes_isArray [of D h v x]
  by (auto simp: h_recursed_def recursed_def)

lemma map_of_mid:
  "key \<notin> fst ` set done \<Longrightarrow> map_of (done @ (key, v) # todo) key = Some v"
  by (induction "done") auto

lemma map_of_mid_other:
  "key' \<noteq> key \<Longrightarrow> map_of (done @ (key, v) # todo) key' = map_of (done @ todo) key'"
  by (induction "done") auto

lemma map_of_mid_moved:
  "map_of ((done @ [(key, v)]) @ todo) key' = map_of (done @ (key, v) # todo) key'"
  by simp

lemma delete_key_other: "key \<notin> fst ` set xs \<Longrightarrow> delete_key key xs = xs"
  by (induction xs) (auto simp: delete_key_def)

lemma set_key_other: "key \<notin> fst ` set xs \<Longrightarrow> set_key key v xs = xs"
  by (induction xs) (auto simp: set_key_def)

lemma delete_key_append: "delete_key key (xs @ ys) = delete_key key xs @ delete_key key ys"
  by (simp add: delete_key_def)

lemma set_key_append: "set_key key v (xs @ ys) = set_key key v xs @ set_key key v ys"
  by (simp add: set_key_def)

lemma delete_key_Cons: "delete_key key ((key, v) # xs) = delete_key key xs"
  by (simp add: delete_key_def)

lemma set_key_Cons: "set_key key v' ((key, v) # xs) = (key, v') # set_key key v' xs"
  by (simp add: set_key_def)

lemma delete_key_mid:
  assumes "distinct (map fst (done @ (key, v) # todo))"
  shows "delete_key key (done @ (key, v) # todo) = done @ todo"
proof -
  have "key \<notin> fst ` set done" "key \<notin> fst ` set todo" using assms by auto
  then show ?thesis
    by (simp add: delete_key_append delete_key_other delete_key_Cons)
qed

lemma set_key_mid:
  assumes "distinct (map fst (done @ (key, v) # todo))"
  shows "set_key key v' (done @ (key, v) # todo) = done @ (key, v') # todo"
proof -
  have "key \<notin> fst ` set done" "key \<notin> fst ` set todo" using assms by auto
  then show ?thesis
    by (simp add: set_key_append set_key_other set_key_Cons)
qed

lemma dropped_not_type: "dropped t key \<Longrightarrow> key \<noteq> ''type''"
  by (auto simp: dropped_def)

lemma cleanKeys_keys:
  "map fst (cleanKeys t kvs) = filter (\<lambda>k. \<not> dropped t k) (map fst kvs)"
  by (induction kvs) (auto simp: cleanKeys_Cons)

lemma spread_as_cleanKeys:
  "spread i xs = cleanKeys t (zip (map show_nat [i..<i + length xs]) xs)"
proof (induction xs arbitrary: i)
  case Nil
  then show ?case by simp
next
  case (Cons x xs)
  have "[i..<i + length (x # xs)] = i # [Suc i..<Suc i + length xs]"
    by (simp add: upt_rec)
  then show ?case using Cons [of "Suc i"] by (simp add: cleanKeys_Cons)
qed

lemma map_of_denotes_str:
  "map fst props = map fst kvs \<Longrightarrow> list_all2 (denotes D h) (map snd props) (map snd kvs) \<Longrightarrow>
   (map_of props key = Some (HStr s)) = (map_of kvs key = Some (JStr s))"
proof (induction props arbitrary: kvs)
  case Nil
  then show ?case by simp
next
  case (Cons p props)
  then obtain q kvs' where k: "kvs = q # kvs'" by (cases kvs) auto
  then have "fst p = fst q" "denotes D h (snd p) (snd q)" using Cons.prems by auto
  then show ?case using Cons k denotes_str [of D h "snd p" "snd q" s]
    by (cases p; cases q) auto
qed

text \<open>
  The loop, begun on a copy whose first properties \<open>done\<close> are settled and whose
  properties \<open>todo\<close> denote \<open>jtodo\<close>, ends on a copy whose properties after \<open>done\<close> denote
  \<open>cleanKeys t jtodo\<close>.
\<close>

lemma loop_refines:
  assumes "\<forall>p \<in> set jtodo. cleans (snd p)"
    and "c < length h" and "c \<notin> D" and "D \<subseteq> {..<length h}"
    and "h ! c = HObject (done @ todo)" and "distinct (map fst (done @ todo))"
    and "map fst todo = map fst jtodo"
    and "list_all2 (denotes D h) (map snd todo) (map snd jtodo)"
    and "(map_of (done @ todo) ''type'' = Some (HStr ''string'')) = t"
  shows "\<exists>n h' done'. cleanLoopH n c (map fst todo) h = Some h'
           \<and> length h \<le> length h' \<and> (\<forall>a < length h. a \<noteq> c \<longrightarrow> h' ! a = h ! a)
           \<and> h' ! c = HObject (done @ done')
           \<and> map fst done' = map fst (cleanKeys t jtodo)
           \<and> list_all2 (denotes (D \<union> {length h..<length h'}) h') (map snd done')
                (map snd (cleanKeys t jtodo))"
  using assms
proof (induction todo arbitrary: jtodo h D "done")
  case Nil
  then have j: "jtodo = []" by simp
  show ?case
    by (rule exI [of _ 0], rule exI [of _ h], rule exI [of _ "[]"]) (use Nil j in simp)
next
  case (Cons p todo)
  obtain k v where p: "p = (k, v)" by (cases p)
  obtain x jtodo' where j: "jtodo = (k, x) # jtodo'"
    using Cons.prems(7) p by (cases jtodo) auto
  have dv: "denotes D h v x"
    and rest: "list_all2 (denotes D h) (map snd todo) (map snd jtodo')"
    and keys: "map fst todo = map fst jtodo'"
    using Cons.prems(7,8) p j by auto
  have hc: "h ! c = HObject (done @ (k, v) # todo)" using Cons.prems(5) p by simp
  have dist: "distinct (map fst (done @ (k, v) # todo))" using Cons.prems(6) p by simp
  have knd: "k \<notin> fst ` set done" using dist by auto
  have mo: "map_of (own_properties (h ! c)) k = Some v"
    unfolding hc own_properties.simps by (rule map_of_mid [OF knd])
  have ty: "(map_of (done @ (k, v) # todo) ''type'' = Some (HStr ''string'')) = t"
    using Cons.prems(9) p by simp
  have hd: "h_dropped (own_properties (h ! c)) k = dropped t k"
    using hc ty by (simp add: h_dropped_dropped)
  have hr: "h_recursed h k v = recursed k x" by (rule h_recursed_recursed [OF dv])
  have child': "\<forall>p \<in> set jtodo'. cleans (snd p)"
    using Cons.prems(1) j by simp
  have cx: "cleans x" using Cons.prems(1) j by simp
  show ?case
  proof (cases "dropped t k")
    case True
    define h2 where "h2 = h[c := HObject (done @ todo)]"
    have step: "cleanLoopH n c (map fst (p # todo)) h = cleanLoopH n c (map fst todo) h2" for n
      using mo hd True hc dist p by (simp add: cleanLoopH_Cons h2_def delete_key_mid)
    have kt: "k \<noteq> ''type''" using True dropped_not_type by blast
    have c2: "c < length h2" using Cons.prems(2) by (simp add: h2_def)
    have D2: "D \<subseteq> {..<length h2}" using Cons.prems(4) by (simp add: h2_def)
    have hc2: "h2 ! c = HObject (done @ todo)" using Cons.prems(2) by (simp add: h2_def)
    have dist2: "distinct (map fst (done @ todo))" using dist by auto
    have agree: "\<forall>a \<in> D. h2 ! a = h ! a"
    proof
      fix a assume "a \<in> D"
      then have "a \<noteq> c" using Cons.prems(3) by auto
      then show "h2 ! a = h ! a" by (simp add: h2_def)
    qed
    have rest2: "list_all2 (denotes D h2) (map snd todo) (map snd jtodo')"
      using rest agree by (auto elim!: list_all2_mono intro: denotes_mono simp: h2_def)
    have ty2: "(map_of (done @ todo) ''type'' = Some (HStr ''string'')) = t"
      using ty kt map_of_mid_other [of "''type''" k "done" v todo] by simp
    from Cons.IH [of jtodo' h2 D "done", OF child' c2 Cons.prems(3) D2 hc2 dist2 keys rest2 ty2]
    obtain n h' done' where r: "cleanLoopH n c (map fst todo) h2 = Some h'"
      "length h2 \<le> length h'" "\<forall>a < length h2. a \<noteq> c \<longrightarrow> h' ! a = h2 ! a"
      "h' ! c = HObject (done @ done')" "map fst done' = map fst (cleanKeys t jtodo')"
      "list_all2 (denotes (D \<union> {length h2..<length h'}) h') (map snd done')
                (map snd (cleanKeys t jtodo'))"
      by blast
    have l: "length h2 = length h" by (simp add: h2_def)
    have "cleanLoopH n c (map fst (p # todo)) h = Some h'" using step r(1) by simp
    moreover have "\<forall>a < length h. a \<noteq> c \<longrightarrow> h' ! a = h ! a"
      using r(3) l by (simp add: h2_def)
    moreover have "cleanKeys t jtodo = cleanKeys t jtodo'"
      using True j by (simp add: cleanKeys_Cons)
    ultimately show ?thesis using r l by auto
  next
    case False
    note nd = this
    show ?thesis
    proof (cases "recursed k x")
      case True
      from cx dv Cons.prems(4)
      obtain n1 h1 v1 where c1: "cleanJsonSchemaH n1 h v = Some (h1, v1)"
        and f1: "take (length h) h1 = h"
        and d1: "denotes (D \<union> {length h..<length h1}) h1 v1 (cleanJsonSchema x)"
        unfolding cleans_def by blast
      have len1: "length h \<le> length h1" using cleanJsonSchemaH_frame [OF c1] by simp
      have same1: "h1 ! a = h ! a" if "a < length h" for a
        using f1 that by (metis nth_take)
      define D2 where "D2 = D \<union> {length h..<length h1}"
      define h2 where "h2 = h1[c := HObject ((done @ [(k, v1)]) @ todo)]"
      have hc1: "h1 ! c = HObject (done @ (k, v) # todo)" using same1 Cons.prems(2) hc by simp
      have upd: "h1[c := HObject (set_key k v1 (own_properties (h1 ! c)))] = h2"
        using hc1 dist by (simp add: h2_def set_key_mid)
      have c2: "c < length h2" using Cons.prems(2) len1 by (simp add: h2_def)
      have cD2: "c \<notin> D2" using Cons.prems(2,3) by (simp add: D2_def)
      have DD2: "D2 \<subseteq> {..<length h2}" using Cons.prems(4) len1 by (auto simp: D2_def h2_def)
      have hc2: "h2 ! c = HObject ((done @ [(k, v1)]) @ todo)"
        using Cons.prems(2) len1 by (simp add: h2_def)
      have dist2: "distinct (map fst ((done @ [(k, v1)]) @ todo))" using dist by auto
      have agree: "\<forall>a \<in> D. h2 ! a = h ! a"
      proof
        fix a assume a: "a \<in> D"
        then have "a \<noteq> c" "a < length h" using Cons.prems(3,4) by auto
        then show "h2 ! a = h ! a" using same1 by (simp add: h2_def)
      qed
      have rest2: "list_all2 (denotes D2 h2) (map snd todo) (map snd jtodo')"
      proof -
        have "denotes D2 h2 y z" if "denotes D h y z" for y z
          by (rule denotes_mono [OF that]) (use agree len1 in \<open>auto simp: D2_def h2_def\<close>)
        then show ?thesis using rest by (auto elim!: list_all2_mono)
      qed
      have v1s: "v1 \<noteq> HStr ''string''" if "k = ''type''"
      proof -
        have "typeof_object x" using True by (simp add: recursed_def)
        then have "x \<noteq> JStr ''string''" by auto
        then have "cleanJsonSchema x \<noteq> JStr ''string''" by simp
        then show ?thesis using denotes_str [OF d1, of "''string''"] by simp
      qed
      have vs: "v \<noteq> HStr ''string''" if "k = ''type''"
      proof -
        have "typeof_object x" using True by (simp add: recursed_def)
        then have "x \<noteq> JStr ''string''" by auto
        then show ?thesis using denotes_str [OF dv, of "''string''"] by simp
      qed
      have ty2: "(map_of ((done @ [(k, v1)]) @ todo) ''type'' = Some (HStr ''string'')) = t"
      proof (cases "k = ''type''")
        case True
        have "map_of (done @ (k, v1) # todo) ''type'' = Some v1"
          using map_of_mid [OF knd, of v1 todo] True by simp
        moreover have "map_of (done @ (k, v) # todo) ''type'' = Some v"
          using map_of_mid [OF knd, of v todo] True by simp
        ultimately show ?thesis using ty v1s vs True by simp
      next
        case False
        then show ?thesis
          using ty map_of_mid_other [of "''type''" k "done" v todo]
            map_of_mid_other [of "''type''" k "done" v1 todo] by simp
      qed
      from Cons.IH [of jtodo' h2 D2 "done @ [(k, v1)]",
          OF child' c2 cD2 DD2 hc2 dist2 keys rest2 ty2]
      obtain n2 h' done' where r: "cleanLoopH n2 c (map fst todo) h2 = Some h'"
        "length h2 \<le> length h'" "\<forall>a < length h2. a \<noteq> c \<longrightarrow> h' ! a = h2 ! a"
        "h' ! c = HObject ((done @ [(k, v1)]) @ done')"
        "map fst done' = map fst (cleanKeys t jtodo')"
        "list_all2 (denotes (D2 \<union> {length h2..<length h'}) h') (map snd done')
                  (map snd (cleanKeys t jtodo'))"
        by blast
      have l2: "length h2 = length h1" by (simp add: h2_def)
      define n where "n = max n1 n2"
      have cn: "cleanJsonSchemaH n h v = Some (h1, v1)"
        by (rule cleanJsonSchemaH_fuel_le [OF c1]) (simp add: n_def)
      have ln: "cleanLoopH n c (map fst todo) h2 = Some h'"
        by (rule cleanLoopH_fuel_le [OF r(1)]) (simp add: n_def)
      have run: "cleanLoopH n c (map fst (p # todo)) h = Some h'"
        using mo hd nd hr True cn ln upd p by (simp add: cleanLoopH_Cons)
      have Deq: "D2 \<union> {length h2..<length h'} = D \<union> {length h..<length h'}"
        using len1 r(2) l2 by (auto simp: D2_def)
      have others: "\<forall>a < length h. a \<noteq> c \<longrightarrow> h' ! a = h ! a"
      proof (intro allI impI)
        fix a assume a: "a < length h" "a \<noteq> c"
        then have "h' ! a = h2 ! a" using r(3) len1 l2 by simp
        also have "\<dots> = h1 ! a" using a by (simp add: h2_def)
        also have "\<dots> = h ! a" using a same1 by simp
        finally show "h' ! a = h ! a" .
      qed
      have dv1: "denotes (D \<union> {length h..<length h'}) h' v1 (cleanJsonSchema x)"
      proof (rule denotes_mono [OF d1])
        show "D \<union> {length h..<length h1} \<subseteq> D \<union> {length h..<length h'}"
          using r(2) l2 by auto
        show "length h1 \<le> length h'" using r(2) l2 by simp
        show "\<forall>a \<in> D \<union> {length h..<length h1}. h' ! a = h1 ! a"
        proof
          fix a assume a: "a \<in> D \<union> {length h..<length h1}"
          then have "a < length h2" "a \<noteq> c"
            using Cons.prems(2,3,4) len1 l2 by auto
          then have "h' ! a = h2 ! a" using r(3) by simp
          then show "h' ! a = h1 ! a" using \<open>a \<noteq> c\<close> by (simp add: h2_def)
        qed
      qed
      have ck: "cleanKeys t jtodo = (k, cleanJsonSchema x) # cleanKeys t jtodo'"
        using nd True j by (simp add: cleanKeys_Cons)
      show ?thesis
        apply (rule exI [of _ n], rule exI [of _ h'], rule exI [of _ "(k, v1) # done'"])
        using run others r len1 l2 dv1 ck Deq by simp
    next
      case False
      have dist2: "distinct (map fst ((done @ [(k, v)]) @ todo))" using dist by auto
      have hc2: "h ! c = HObject ((done @ [(k, v)]) @ todo)" using hc by simp
      have ty2: "(map_of ((done @ [(k, v)]) @ todo) ''type'' = Some (HStr ''string'')) = t"
        using ty by simp
      from Cons.IH [of jtodo' h D "done @ [(k, v)]",
          OF child' Cons.prems(2,3,4) hc2 dist2 keys rest ty2]
      obtain n h' done' where r: "cleanLoopH n c (map fst todo) h = Some h'"
        "length h \<le> length h'" "\<forall>a < length h. a \<noteq> c \<longrightarrow> h' ! a = h ! a"
        "h' ! c = HObject ((done @ [(k, v)]) @ done')"
        "map fst done' = map fst (cleanKeys t jtodo')"
        "list_all2 (denotes (D \<union> {length h..<length h'}) h') (map snd done')
                  (map snd (cleanKeys t jtodo'))"
        by blast
      have run: "cleanLoopH n c (map fst (p # todo)) h = Some h'"
        using mo hd nd hr False r(1) p by (simp add: cleanLoopH_Cons)
      have dv': "denotes (D \<union> {length h..<length h'}) h' v x"
      proof (rule denotes_mono [OF dv])
        show "D \<subseteq> D \<union> {length h..<length h'}" by auto
        show "length h \<le> length h'" by (rule r(2))
        show "\<forall>a \<in> D. h' ! a = h ! a"
        proof
          fix a assume a: "a \<in> D"
          then have "a \<noteq> c" "a < length h" using Cons.prems(3,4) by auto
          then show "h' ! a = h ! a" using r(3) by simp
        qed
      qed
      have ck: "cleanKeys t jtodo = (k, x) # cleanKeys t jtodo'"
        using nd False j by (simp add: cleanKeys_Cons)
      show ?thesis
        apply (rule exI [of _ n], rule exI [of _ h'], rule exI [of _ "(k, v) # done'"])
        using run r dv' ck by simp
    qed
  qed
qed

lemma object_refines:
  assumes "\<forall>p \<in> set kvs. cleans (snd p)"
    and "a < length h" and "own_properties (h ! a) = props"
    and "distinct (map fst props)" and "map fst props = map fst kvs"
    and "list_all2 (denotes D h) (map snd props) (map snd kvs)"
    and "D \<subseteq> {..<length h}"
  shows "\<exists>n h'. cleanJsonSchemaH n h (HRef a) = Some (h', HRef (length h))
           \<and> take (length h) h' = h
           \<and> denotes (D \<union> {length h..<length h'}) h' (HRef (length h))
               (JObj (cleanKeys (map_of props ''type'' = Some (HStr ''string'')) kvs))"
proof -
  define t where "t = (map_of props ''type'' = Some (HStr ''string''))"
  define c where "c = length h"
  define h1 where "h1 = h @ [HObject props]"
  have c1: "c < length h1" by (simp add: c_def h1_def)
  have cD: "c \<notin> D" using assms(7) by (auto simp: c_def)
  have D1: "D \<subseteq> {..<length h1}" using assms(7) by (auto simp: h1_def)
  have hc: "h1 ! c = HObject ([] @ props)" by (simp add: c_def h1_def)
  have dist: "distinct (map fst ([] @ props))" using assms(4) by simp
  have vals: "list_all2 (denotes D h1) (map snd props) (map snd kvs)"
  proof -
    have "denotes D h1 y z" if "denotes D h y z" for y z
    proof (rule denotes_mono [OF that])
      show "\<forall>a \<in> D. h1 ! a = h ! a" using assms(7) by (auto simp: h1_def nth_append)
    qed (simp_all add: h1_def)
    then show ?thesis using assms(6) by (auto elim!: list_all2_mono)
  qed
  have ty: "(map_of ([] @ props) ''type'' = Some (HStr ''string'')) = t" by (simp add: t_def)
  from loop_refines [of kvs c h1 D "[]" props t, OF assms(1) c1 cD D1 hc dist assms(5) vals ty]
  obtain n h' done' where r: "cleanLoopH n c (map fst props) h1 = Some h'"
    "length h1 \<le> length h'" "\<forall>a < length h1. a \<noteq> c \<longrightarrow> h' ! a = h1 ! a"
    "h' ! c = HObject ([] @ done')" "map fst done' = map fst (cleanKeys t kvs)"
    "list_all2 (denotes (D \<union> {length h1..<length h'}) h') (map snd done')
       (map snd (cleanKeys t kvs))"
    by blast
  have run: "cleanJsonSchemaH (Suc n) h (HRef a) = Some (h', HRef (length h))"
    using r(1) assms(3) by (simp add: c_def h1_def)
  have fr: "take (length h) h' = h"
  proof (rule nth_equalityI)
    show "length (take (length h) h') = length h" using r(2) by (simp add: h1_def)
    fix i assume "i < length (take (length h) h')"
    then have i: "i < length h" by simp
    then have "h' ! i = h1 ! i" using r(3) by (simp add: h1_def c_def)
    then show "take (length h) h' ! i = h ! i" using i by (simp add: h1_def nth_append)
  qed
  have dk: "distinct (map fst done')"
    using r(5) assms(4,5) by (simp add: cleanKeys_keys)
  have vals': "list_all2 (denotes (D \<union> {length h..<length h'}) h') (map snd done')
       (map snd (cleanKeys t kvs))"
  proof -
    have "denotes (D \<union> {length h..<length h'}) h' y z"
      if "denotes (D \<union> {length h1..<length h'}) h' y z" for y z
      by (rule denotes_mono [OF that]) (auto simp: h1_def)
    then show ?thesis using r(6) by (auto elim!: list_all2_mono)
  qed
  have "denotes (D \<union> {length h..<length h'}) h' (HRef c) (JObj (cleanKeys t kvs))"
  proof (rule denotes.dObj [of _ _ _ done'])
    show "c \<in> D \<union> {length h..<length h'}" using r(2) by (simp add: c_def h1_def)
    show "c < length h'" using r(2) by (simp add: c_def h1_def)
    show "h' ! c = HObject done'" using r(4) by simp
  qed (use dk r(5) vals' in simp_all)
  then show ?thesis using run fr unfolding c_def t_def by blast
qed

lemma cleans_primitive:
  assumes "\<not> typeof_object x \<or> x = JNull"
  shows "cleans x"
  unfolding cleans_def
proof (intro allI impI)
  fix D h v assume d: "denotes D h v x"
  have v: "\<forall>a. v \<noteq> HRef a" using d assms by (cases rule: denotes.cases) auto
  have c: "cleanJsonSchema x = x" using assms by (cases x) auto
  have "cleanJsonSchemaH (Suc 0) h v = Some (h, v)" using v by (cases v) auto
  moreover have "denotes (D \<union> {length h..<length h}) h v (cleanJsonSchema x)"
    using d c by simp
  ultimately show "\<exists>n h' v'. cleanJsonSchemaH n h v = Some (h', v') \<and> take (length h) h' = h
      \<and> denotes (D \<union> {length h..<length h'}) h' v' (cleanJsonSchema x)"
    by (intro exI [of _ "Suc 0"] exI [of _ h] exI [of _ v]) simp
qed

lemma cleans_all: "cleans j"
proof (induction j)
  case (JArr xs)
  show ?case unfolding cleans_def
  proof (intro allI impI)
    fix D h v assume d: "denotes D h v (JArr xs)" and sub: "D \<subseteq> {..<length h}"
    from d obtain a ys where v: "v = HRef a" and a: "a < length h" "h ! a = HArray ys"
      and ys: "list_all2 (denotes D h) ys xs"
      by (cases rule: denotes.cases) auto
    have len: "length ys = length xs" using ys by (rule list_all2_lengthD)
    define idx where "idx = map show_nat [0..<length ys]"
    have li: "length idx = length ys" by (simp add: idx_def)
    have ch: "\<forall>p \<in> set (zip idx xs). cleans (snd p)"
      using JArr by (auto dest: set_zip_rightD)
    have props: "own_properties (h ! a) = zip idx ys" using a by (simp add: idx_def)
    have dist: "distinct (map fst (zip idx ys))"
      using li distinct_show_nat [of 0 "length ys"] by (simp add: idx_def)
    have keys: "map fst (zip idx ys) = map fst (zip idx xs)" using li len by simp
    have vals: "list_all2 (denotes D h) (map snd (zip idx ys)) (map snd (zip idx xs))"
      using ys li len by simp
    from object_refines [OF ch a(1) props dist keys vals sub]
    obtain n h' where r: "cleanJsonSchemaH n h (HRef a) = Some (h', HRef (length h))"
      "take (length h) h' = h"
      "denotes (D \<union> {length h..<length h'}) h' (HRef (length h))
         (JObj (cleanKeys (map_of (zip idx ys) ''type'' = Some (HStr ''string'')) (zip idx xs)))"
      by blast
    have "cleanJsonSchema (JArr xs)
        = JObj (cleanKeys (map_of (zip idx ys) ''type'' = Some (HStr ''string'')) (zip idx xs))"
      using spread_as_cleanKeys [of 0 xs] len by (simp add: idx_def)
    then show "\<exists>n h' v'. cleanJsonSchemaH n h v = Some (h', v') \<and> take (length h) h' = h
        \<and> denotes (D \<union> {length h..<length h'}) h' v' (cleanJsonSchema (JArr xs))"
      using r v by auto
  qed
next
  case (JObj kvs)
  show ?case unfolding cleans_def
  proof (intro allI impI)
    fix D h v assume d: "denotes D h v (JObj kvs)" and sub: "D \<subseteq> {..<length h}"
    from d obtain a props where v: "v = HRef a" and a: "a < length h" "h ! a = HObject props"
      and dist: "distinct (map fst props)" and keys: "map fst props = map fst kvs"
      and vals: "list_all2 (denotes D h) (map snd props) (map snd kvs)"
      by (cases rule: denotes.cases) auto
    have ch: "\<forall>p \<in> set kvs. cleans (snd p)"
      using JObj by (auto simp: snds.simps)
    have props: "own_properties (h ! a) = props" using a by simp
    from object_refines [OF ch a(1) props dist keys vals sub]
    obtain n h' where r: "cleanJsonSchemaH n h (HRef a) = Some (h', HRef (length h))"
      "take (length h) h' = h"
      "denotes (D \<union> {length h..<length h'}) h' (HRef (length h))
         (JObj (cleanKeys (map_of props ''type'' = Some (HStr ''string'')) kvs))"
      by blast
    have "(map_of props ''type'' = Some (HStr ''string''))
        = (map_of kvs ''type'' = Some (JStr ''string''))"
      by (rule map_of_denotes_str [OF keys vals])
    then have "cleanJsonSchema (JObj kvs)
        = JObj (cleanKeys (map_of props ''type'' = Some (HStr ''string'')) kvs)"
      by simp
    then show "\<exists>n h' v'. cleanJsonSchemaH n h v = Some (h', v') \<and> take (length h) h' = h
        \<and> denotes (D \<union> {length h..<length h'}) h' v' (cleanJsonSchema (JObj kvs))"
      using r v by auto
  qed
qed (simp_all add: cleans_primitive)

text \<open>A value denotes after the call what it denoted before.\<close>

lemma denotes_after:
  assumes "denotes {..<length h} h v s" and "length h \<le> length h'"
    and "take (length h) h' = h"
  shows "denotes {..<length h'} h' v s"
proof (rule denotes_mono [OF assms(1)])
  show "\<forall>a \<in> {..<length h}. h' ! a = h ! a"
  proof
    fix a assume "a \<in> {..<length h}"
    then have "a < length h" by simp
    then have "take (length h) h' ! a = h' ! a" by simp
    then show "h' ! a = h ! a" using assms(3) by simp
  qed
qed (use assms(2) in auto)
subsection \<open>Idempotence, deleted keys and the argument\<close>

text \<open>
  Claim C6, as amended. \<open>cleanJsonSchema\<close> is idempotent, and its result has none of the
  keys \<^verbatim>\<open>$schema\<close>, \<^verbatim>\<open>additionalProperties\<close>, \<^verbatim>\<open>title\<close>, \<^verbatim>\<open>examples\<close>, and no
  \<^verbatim>\<open>format\<close> beside \<^verbatim>\<open>type: "string"\<close>, in the result itself or in any object nested
  in it through object-valued properties. The cleaner does not look into an array that
  is the value of a key other than \<^verbatim>\<open>properties\<close> and \<^verbatim>\<open>items\<close>. It does not change its
  argument: a call that returns leaves every object of the store as it was, and on a
  value \<open>v\<close> that denotes the schema \<open>s\<close> the call returns, \<open>v\<close> denotes \<open>s\<close> after the call
  as before, and the value returned denotes \<open>cleanJsonSchema s\<close>.
\<close>

theorem cleanJsonSchema_idempotent_and_clean:
  "cleanJsonSchema (cleanJsonSchema s) = cleanJsonSchema s
   \<and> \<not> has_banned_object (cleanJsonSchema s)
   \<and> (cleanJsonSchemaH m h0 v0 = Some (h1, v1) \<longrightarrow> take (length h0) h1 = h0)
   \<and> (denotes {..<length h} h v s \<longrightarrow>
        (\<exists>n h' v'. cleanJsonSchemaH n h v = Some (h', v') \<and> take (length h) h' = h
           \<and> denotes {..<length h'} h' v s
           \<and> denotes {..<length h'} h' v' (cleanJsonSchema s)))"
proof (intro conjI impI)
  show "cleanJsonSchema (cleanJsonSchema s) = cleanJsonSchema s"
    by (rule cleanJsonSchema_idem)
  show "\<not> has_banned_object (cleanJsonSchema s)"
    by (rule cleanJsonSchema_no_banned_object)
  show "take (length h0) h1 = h0" if "cleanJsonSchemaH m h0 v0 = Some (h1, v1)"
    using cleanJsonSchemaH_frame [OF that] by simp
  assume d: "denotes {..<length h} h v s"
  have "cleans s" by (rule cleans_all)
  then obtain n h' v' where r: "cleanJsonSchemaH n h v = Some (h', v')"
    "take (length h) h' = h"
    "denotes ({..<length h} \<union> {length h..<length h'}) h' v' (cleanJsonSchema s)"
    unfolding cleans_def using d by blast
  have le: "length h \<le> length h'" using cleanJsonSchemaH_frame [OF r(1)] by simp
  then have "{..<length h} \<union> {length h..<length h'} = {..<length h'}" by auto
  then have "denotes {..<length h'} h' v' (cleanJsonSchema s)" using r(3) by simp
  moreover have "denotes {..<length h'} h' v s" by (rule denotes_after [OF d le r(2)])
  ultimately show "\<exists>n h' v'. cleanJsonSchemaH n h v = Some (h', v') \<and> take (length h) h' = h
      \<and> denotes {..<length h'} h' v s \<and> denotes {..<length h'} h' v' (cleanJsonSchema s)"
    using r(1,2) by blast
qed

text \<open>
  The schema of \<open>example_store\<close>: the call allocates the three objects of the result and
  shares the array under \<^verbatim>\<open>required\<close> with its argument.
\<close>

theorem cleanJsonSchema_idempotent_and_clean_witness:
  "cleanJsonSchema (cleanJsonSchema example_schema)
     = JObj [(''type'', JStr ''object''),
             (''properties'', JObj [(''day'', JObj [(''type'', JStr ''string'')])]),
             (''required'', JArr [JStr ''day''])]
   \<and> cleanJsonSchemaH 3 example_store (HRef 0)
     = Some (example_store @
               [HObject [(''type'', HStr ''object''), (''properties'', HRef 5),
                         (''required'', HRef 3)],
                HObject [(''day'', HRef 6)],
                HObject [(''type'', HStr ''string'')]], HRef 4)
   \<and> denotes {..<length example_store} example_store (HRef 0) example_schema
   \<and> (\<exists>n h' v'. cleanJsonSchemaH n example_store (HRef 0) = Some (h', v')
        \<and> take (length example_store) h' = example_store
        \<and> denotes {..<length h'} h' (HRef 0) example_schema
        \<and> denotes {..<length h'} h' v'
             (JObj [(''type'', JStr ''object''),
                    (''properties'', JObj [(''day'', JObj [(''type'', JStr ''string'')])]),
                    (''required'', JArr [JStr ''day''])]))"
proof -
  have c: "cleanJsonSchema example_schema
     = JObj [(''type'', JStr ''object''),
             (''properties'', JObj [(''day'', JObj [(''type'', JStr ''string'')])]),
             (''required'', JArr [JStr ''day''])]"
    by (simp add: example_schema_def cleanKeys.simps)
  have run: "cleanJsonSchemaH 3 example_store (HRef 0)
     = Some (example_store @
               [HObject [(''type'', HStr ''object''), (''properties'', HRef 5),
                         (''required'', HRef 3)],
                HObject [(''day'', HRef 6)],
                HObject [(''type'', HStr ''string'')]], HRef 4)"
    by code_simp
  have d2: "denotes {..<length example_store} example_store (HRef 2)
      (JObj [(''type'', JStr ''string''), (''format'', JStr ''date'')])"
    by (rule denotes.dObj [of _ _ _ "[(''type'', HStr ''string''), (''format'', HStr ''date'')]"])
      (simp_all add: example_store_def denotes.dStr)
  have d1: "denotes {..<length example_store} example_store (HRef 1)
      (JObj [(''day'', JObj [(''type'', JStr ''string''), (''format'', JStr ''date'')])])"
    by (rule denotes.dObj [of _ _ _ "[(''day'', HRef 2)]"])
      (simp_all add: d2, simp_all add: example_store_def)
  have d3: "denotes {..<length example_store} example_store (HRef 3) (JArr [JStr ''day''])"
    by (rule denotes.dArr [of _ _ _ "[HStr ''day'']"])
      (simp_all add: example_store_def denotes.dStr)
  have d: "denotes {..<length example_store} example_store (HRef 0) example_schema"
    unfolding example_schema_def
    by (rule denotes.dObj [of _ _ _ "[(''title'', HStr ''T''), (''type'', HStr ''object''),
               (''properties'', HRef 1), (''required'', HRef 3)]"])
      (simp_all add: d1 [unfolded One_nat_def] d3 denotes.dStr, simp_all add: example_store_def)
  note t = cleanJsonSchema_idempotent_and_clean [of example_schema 0 "[]" HNull "[]" HNull example_store "HRef 0"]
  have i: "cleanJsonSchema (cleanJsonSchema example_schema) = cleanJsonSchema example_schema"
    by (rule conjunct1 [OF t])
  have e: "\<exists>n h' v'. cleanJsonSchemaH n example_store (HRef 0) = Some (h', v')
        \<and> take (length example_store) h' = example_store
        \<and> denotes {..<length h'} h' (HRef 0) example_schema
        \<and> denotes {..<length h'} h' v' (cleanJsonSchema example_schema)"
    by (rule mp [OF conjunct2 [OF conjunct2 [OF conjunct2 [OF t]]] d])
  show ?thesis
    unfolding c [symmetric] using i run d e by (intro conjI)
qed

text \<open>
  Claim C6 as stated fails at \<^verbatim>\<open>{"anyOf": [{"title": "x"}]}\<close>: the array under
  \<^verbatim>\<open>anyOf\<close> is kept as it is, and the key \<^verbatim>\<open>title\<close> inside it remains in the result.
\<close>

theorem cleanJsonSchema_keeps_banned_key_in_array:
  "cleanJsonSchema (JObj [(''anyOf'', JArr [JObj [(''title'', JStr ''x'')]])])
     = JObj [(''anyOf'', JArr [JObj [(''title'', JStr ''x'')]])]
   \<and> has_banned (cleanJsonSchema (JObj [(''anyOf'', JArr [JObj [(''title'', JStr ''x'')]])]))"
  by (simp add: cleanKeys.simps banned_key_def)

text \<open>
  Claim C10. When the value of \<^verbatim>\<open>items\<close> in a schema object is an array, the value of
  \<^verbatim>\<open>items\<close> in the result is an object, not an array: it has one property per element,
  keyed by the element's index, whose value is the element, cleaned when the element is
  an object.
\<close>

theorem cleanJsonSchema_items_array:
  assumes "map_of kvs ''items'' = Some (JArr xs)"
  shows "get_prop (cleanJsonSchema (JObj kvs)) ''items'' =
           Inr (Some (JObj (zip (map show_nat [0..<length xs])
             (map (\<lambda>x. if typeof_object x \<and> \<not> isArray x then cleanJsonSchema x else x) xs))))
         \<and> (\<forall>ys. get_prop (cleanJsonSchema (JObj kvs)) ''items'' \<noteq> Inr (Some (JArr ys)))"
proof -
  have spread_zip: "spread i ys = zip (map show_nat [i..<i + length ys])
      (map (\<lambda>x. if typeof_object x \<and> \<not> isArray x then cleanJsonSchema x else x) ys)"
    for i ys
  proof (induction ys arbitrary: i)
    case Nil
    then show ?case by simp
  next
    case (Cons y ys)
    have "[i..<i + length (y # ys)] = i # [Suc i..<Suc i + length ys]"
      by (simp add: upt_rec)
    then show ?case using Cons [of "Suc i"] by simp
  qed
  have "map_of (cleanKeys t kvs) ''items'' = Some (JObj (spread 0 xs))" for t
    using assms by (simp add: map_of_cleanKeys dropped_def recursed_def)
  then show ?thesis using spread_zip [of 0 xs] by simp
qed

theorem cleanJsonSchema_items_array_witness:
  "get_prop (cleanJsonSchema (JObj [(''type'', JStr ''array''),
      (''items'', JArr [JObj [(''type'', JStr ''string''), (''title'', JStr ''a'')],
                       JObj [(''type'', JStr ''number'')]])])) ''items''
    = Inr (Some (JObj [(''0'', JObj [(''type'', JStr ''string'')]),
                       (''1'', JObj [(''type'', JStr ''number'')])]))"
  using cleanJsonSchema_items_array [of
      "[(''type'', JStr ''array''),
        (''items'', JArr [JObj [(''type'', JStr ''string''), (''title'', JStr ''a'')],
                         JObj [(''type'', JStr ''number'')]])]"
      "[JObj [(''type'', JStr ''string''), (''title'', JStr ''a'')],
        JObj [(''type'', JStr ''number'')]]"]
  by (simp add: cleanKeys.simps show_nat.simps digit_char_def upt_rec)

section \<open>Properties of request validation and of the routing guard\<close>

lemma get_prop_field:
  "get_prop v key = (if v = JNull then Inl TypeError else Inr (field v key))"
  by (cases v) simp_all


lemma validateMessages_kind:
  "validateMessages ms = Inr (Some r) \<Longrightarrow>
   err_type r = ''invalid_request_error'' \<and> err_status r = 400"
proof (induction ms)
  case Nil
  then show ?case by simp
next
  case (Cons m ms)
  then show ?case
    by (auto simp: get_prop_field formatAnthropicErrorResponse_def
        split: if_splits)
qed

lemma validateBody_kind:
  "validateBody coerced rb = Inr (Some r) \<Longrightarrow>
   err_type r = ''invalid_request_error'' \<and> err_status r = 400"
  unfolding validateBody_def
  by (auto simp: get_prop_field formatAnthropicErrorResponse_def
      dest: validateMessages_kind split: if_splits)





text \<open>
  Claim C8, as amended. A request whose model is a string without the separator
  \<^verbatim>\<open>#\<close> is answered by the handler itself, and the provider is not called: with the
  400 \<^verbatim>\<open>invalid_request_error\<close> of validation when validation fails, and otherwise with a
  404 \<^verbatim>\<open>model_not_found\<close>.
\<close>

theorem no_separator_rejected:
  assumes "field requestBody ''model'' = Some (JStr s)" and "CHR ''#'' \<notin> set s"
  shows "\<exists>r. handleAnthropicMessagesRequest coerced (Some requestBody) = Inr (Respond r)
           \<and> (case validateRequest coerced (Some requestBody) of
                 Some e \<Rightarrow> r = e \<and> err_type r = ''invalid_request_error'' \<and> err_status r = 400
               | None \<Rightarrow> r = formatAnthropicErrorResponse (ModelNotFound (Some (JStr s)))
                              ''model_not_found'' 404)"
proof (cases "validateRequest coerced (Some requestBody)")
  case None
  have "requestBody \<noteq> JNull" using assms(1) by auto
  then show ?thesis
    using None assms
    by (simp add: handleAnthropicMessagesRequest_def get_prop_field)
next
  case (Some e)
  have "err_type e = ''invalid_request_error'' \<and> err_status e = 400"
    using Some validateBody_kind [of coerced requestBody e]
    by (auto simp: validateRequest_def formatAnthropicErrorResponse_def split: sum.splits)
  then show ?thesis using Some by (simp add: handleAnthropicMessagesRequest_def)
qed

theorem no_separator_rejected_witness:
  "handleAnthropicMessagesRequest (\<lambda>v. False)
     (Some (JObj [(''model'', JStr ''claude-3-5-sonnet''), (''max_tokens'', JNum 100),
        (''messages'', JArr [JObj [(''role'', JStr ''user''), (''content'', JStr ''Hello'')]])]))
   = Inr (Respond (formatAnthropicErrorResponse
       (ModelNotFound (Some (JStr ''claude-3-5-sonnet''))) ''model_not_found'' 404))"
proof -
  have v: "validateRequest (\<lambda>v. False)
     (Some (JObj [(''model'', JStr ''claude-3-5-sonnet''), (''max_tokens'', JNum 100),
        (''messages'', JArr [JObj [(''role'', JStr ''user''), (''content'', JStr ''Hello'')]])]))
     = None"
    by (simp add: validateRequest_def validateBody_def)
  show ?thesis
    using no_separator_rejected [of
        "JObj [(''model'', JStr ''claude-3-5-sonnet''), (''max_tokens'', JNum 100),
          (''messages'', JArr [JObj [(''role'', JStr ''user''), (''content'', JStr ''Hello'')]])]"
        "''claude-3-5-sonnet''" "\<lambda>v. False"]
    by (auto simp: v)
qed

text \<open>
  Claim C8 as stated fails for a request that passes validation: the error is a 404
  \<^verbatim>\<open>model_not_found\<close>, not the \<^verbatim>\<open>invalid_request_error\<close> of an invalid request.
\<close>

theorem no_separator_is_model_not_found:
  "handleAnthropicMessagesRequest (\<lambda>v. False)
     (Some (JObj [(''model'', JStr ''gpt-4o''), (''max_tokens'', JNum 100),
        (''messages'', JArr [JObj [(''role'', JStr ''user''), (''content'', JStr ''Hello'')]])]))
   = Inr (Respond \<lparr>err_message = ModelNotFound (Some (JStr ''gpt-4o'')),
                   err_type = ''model_not_found'', err_status = 404\<rparr>)"
  by (simp add: handleAnthropicMessagesRequest_def validateRequest_def validateBody_def
      formatAnthropicErrorResponse_def)

section \<open>Properties of the non-streaming response translator\<close>

text \<open>
  Claim C5 fails on the code. For a message whose \<^verbatim>\<open>tool_calls\<close> is the empty array and
  whose finish reason is \<^verbatim>\<open>length\<close>, the stop reason is \<^verbatim>\<open>tool_use\<close>, with no tool call
  in the content: line 405 tests the array for truthiness, not for an element.
\<close>

theorem convertNormalResponse_empty_tool_calls:
  "convertNormalResponse (\<lambda>s. None) ''msg_1''
     \<lparr>cmpl_choices = Some
        [\<lparr>cc_message = Some \<lparr>msg_content = Some ''The answer is'', msg_tool_calls = Some []\<rparr>,
          cc_finish_reason = Some ''length''\<rparr>],
      cmpl_usage = None\<rparr>
   = Inr \<lparr>resp_id = ''msg_1'', resp_content = [Text ''The answer is''],
          resp_stop_reason = Some ''tool_use'', resp_usage = None\<rparr>"
  by (simp add: convertNormalResponse_def convertUsage_def)

section \<open>Properties of the streaming re-encoder\<close>

subsection \<open>Reads and lines\<close>

lemma split_lines_not_Nil [simp]: "split_lines s \<noteq> []"
  by (induction s) (auto split: list.splits)

lemma split_lines_no_newline: "CHR 0x0A \<notin> set s \<Longrightarrow> split_lines s = [s]"
  by (induction s) auto

lemma last_split_lines_no_newline: "CHR 0x0A \<notin> set (last (split_lines s))"
  by (induction s) (auto split: list.splits)

lemma split_lines_append:
  "split_lines (xs @ ys) =
     butlast (split_lines xs) @ split_lines (last (split_lines xs) @ ys)"
proof (induction xs)
  case Nil
  then show ?case by simp
next
  case (Cons c cs)
  show ?case
  proof (cases "c = CHR 0x0A")
    case True
    then show ?thesis using Cons by simp
  next
    case False
    obtain l ls where s: "split_lines cs = l # ls"
      by (cases "split_lines cs") auto
    show ?thesis
    proof (cases ls)
      case Nil
      then show ?thesis using False s Cons by simp
    next
      case (Cons l' ls')
      then show ?thesis using False s Cons.IH by (simp split: list.splits)
    qed
  qed
qed

text \<open>The loop over the lines neither reads nor writes \<^verbatim>\<open>buffer\<close>.\<close>

lemma callProcessLine_buffer:
  "callProcessLine pl k s (st\<lparr>st_buffer := b\<rparr>) = (callProcessLine pl k s st)\<lparr>st_buffer := b\<rparr>"
  by (simp add: callProcessLine_def split: prod.splits option.splits)

lemma handleLine_buffer:
  "handleLine pl l (st\<lparr>st_buffer := b\<rparr>) = (handleLine pl l st)\<lparr>st_buffer := b\<rparr>"
  by (simp add: handleLine_def Let_def callProcessLine_buffer)

lemma fold_handleLine_buffer:
  "fold (handleLine pl) ls (st\<lparr>st_buffer := b\<rparr>) = (fold (handleLine pl) ls st)\<lparr>st_buffer := b\<rparr>"
  by (induction ls arbitrary: st) (simp_all add: handleLine_buffer)

text \<open>
  After any number of reads, the lines handled are the complete lines of the text read
  so far, and \<^verbatim>\<open>buffer\<close> is what follows its last newline.
\<close>

lemma fold_readChunk:
  "CHR 0x0A \<notin> set (st_buffer st) \<Longrightarrow>
   fold (readChunk pl) chunks st =
     (fold (handleLine pl) (butlast (split_lines (st_buffer st @ concat chunks))) st)
       \<lparr>st_buffer := last (split_lines (st_buffer st @ concat chunks))\<rparr>"
proof (induction chunks arbitrary: st)
  case Nil
  then show ?case by (simp add: split_lines_no_newline)
next
  case (Cons c cs)
  define L1 where "L1 = split_lines (st_buffer st @ c)"
  define st1 where "st1 = readChunk pl c st"
  have st1: "st1 = (fold (handleLine pl) (butlast L1) st)\<lparr>st_buffer := last L1\<rparr>"
    by (simp add: st1_def readChunk_def Let_def L1_def fold_handleLine_buffer)
  have b1: "st_buffer st1 = last L1" by (simp add: st1)
  have nn: "CHR 0x0A \<notin> set (st_buffer st1)"
    unfolding b1 L1_def by (rule last_split_lines_no_newline)
  have sp: "split_lines (st_buffer st @ c @ concat cs) =
      butlast L1 @ split_lines (last L1 @ concat cs)"
    using split_lines_append [of "st_buffer st @ c" "concat cs"] by (simp add: L1_def)
  have "fold (readChunk pl) (c # cs) st = fold (readChunk pl) cs st1"
    by (simp add: st1_def)
  also have "\<dots> = (fold (handleLine pl) (butlast (split_lines (last L1 @ concat cs))) st1)
       \<lparr>st_buffer := last (split_lines (last L1 @ concat cs))\<rparr>"
    using Cons.IH [OF nn] by (simp add: b1)
  also have "\<dots> =
      (fold (handleLine pl) (butlast L1 @ butlast (split_lines (last L1 @ concat cs))) st)
       \<lparr>st_buffer := last (split_lines (last L1 @ concat cs))\<rparr>"
    by (simp add: st1 fold_handleLine_buffer)
  finally show ?case
    by (simp add: sp butlast_append)
qed

lemma stream_closed_form:
  "processProviderStream valid_json process_line closure (Some chunks) =
     closeStream valid_json process_line
       ((fold (handleLine process_line) (butlast (split_lines (concat chunks)))
           (openStream closure))
          \<lparr>st_buffer := last (split_lines (concat chunks))\<rparr>)"
  using fold_readChunk [of "openStream closure" process_line chunks]
  by (simp add: processProviderStream_def openStream_def)

text \<open>The final block on a last line that has not been ended by a newline.\<close>

lemma not_space_d [simp]: "\<not> is_space CHR ''d''"
  by (simp add: is_space_def)

lemma trim_Nil [simp]: "trim [] = []"
  by (simp add: trim_def)

lemma trim_not_Nil: "trim s \<noteq> [] \<Longrightarrow> \<exists>x \<in> set s. \<not> is_space x"
proof (rule ccontr)
  assume t: "trim s \<noteq> []" and "\<not> (\<exists>x \<in> set s. \<not> is_space x)"
  then have "\<forall>x \<in> set s. is_space x" by blast
  then have d: "dropWhile is_space s = []" by (rule dropWhile_eq_Nil_conv [THEN iffD2])
  show False using t unfolding trim_def d by simp
qed

lemma trim_data:
  assumes "take 6 l = ''data: ''"
  shows "trim l \<noteq> []"
    and "trim (drop 6 l) \<noteq> [] \<Longrightarrow> take 6 (trim l) = ''data: ''"
proof -
  define r where "r = drop 6 l"
  have l: "l = ''data: '' @ r"
    using assms append_take_drop_id [of 6 l] by (simp add: r_def)
  have front: "dropWhile is_space l = ''data: '' @ r" by (simp add: l)
  have "dropWhile is_space (rev r @ rev ''data: '') \<noteq> []"
    by (simp add: dropWhile_append is_space_def)
  then show "trim l \<noteq> []" by (simp add: trim_def front)
  assume "trim (drop 6 l) \<noteq> []"
  then obtain x where x: "x \<in> set (rev r)" "\<not> is_space x"
    using trim_not_Nil [of r] by (auto simp: r_def)
  have "dropWhile is_space (rev r @ rev ''data: '')
      = dropWhile is_space (rev r) @ rev ''data: ''"
    using x by (simp add: dropWhile_append1)
  then have "trim l = ''data: '' @ rev (dropWhile is_space (rev r))"
    by (simp add: trim_def front)
  then show "take 6 (trim l) = ''data: ''" by simp
qed

lemma handleLine_data:
  assumes "take 6 l = ''data: ''" and "trim (drop 6 l) \<noteq> []"
    and "trim (drop 6 l) \<noteq> ''[DONE]''"
  shows "handleLine pl l st = callProcessLine pl False (trim (drop 6 l)) st"
  using assms trim_data(1) [OF assms(1)] by (simp add: handleLine_def Let_def)

lemma finalBuffer_data:
  assumes "take 6 (st_buffer st) = ''data: ''" and "trim (drop 6 (st_buffer st)) \<noteq> []"
    and "trim (drop 6 (st_buffer st)) \<noteq> ''[DONE]''"
  shows "finalBuffer vj pl st = callProcessLine pl True (trim (drop 6 (st_buffer st))) st"
  using assms trim_data [OF assms(1)] by (simp add: finalBuffer_def Let_def)

lemma finalBuffer_json:
  assumes "trim (st_buffer st) \<noteq> []" and "take 6 (trim (st_buffer st)) \<noteq> ''data: ''"
    and "vj (trim (st_buffer st))"
  shows "finalBuffer vj pl st = callProcessLine pl True (trim (st_buffer st)) st"
  using assms by (simp add: finalBuffer_def Let_def)

lemma finalBuffer_blank: "trim (st_buffer st) = [] \<Longrightarrow> finalBuffer vj pl st = st"
  by (simp add: finalBuffer_def)

lemma finalBuffer_empty: "st_buffer st = [] \<Longrightarrow> finalBuffer vj pl st = st"
  by (simp add: finalBuffer_def)

lemma closeStream_empty:
  "st_buffer st = [] \<Longrightarrow>
   closeStream vj pl st =
     st_enqueued st @ (if st_hasStartedContent st then [ContentBlockStop 0] else [])
       @ [MessageStop]"
  by (simp add: closeStream_def finalBuffer_empty)

lemma closeStream_callProcessLine:
  "closeStream vj pl' (callProcessLine (processLine pc P) k payload st\<lparr>st_buffer := []\<rparr>)
     = flushed pc P st payload"
  by (simp add: closeStream_empty callProcessLine_def flushed_def split: prod.splits option.splits)

lemma split_lines_newline:
  "CHR 0x0A \<notin> set l \<Longrightarrow> split_lines (l @ CHR 0x0A # s) = l # split_lines s"
  by (induction l) auto

lemma flushed_data:
  assumes "take 6 (unterminated (concat chunks)) = ''data: ''"
    and "trim (drop 6 (unterminated (concat chunks))) \<noteq> []"
    and "trim (drop 6 (unterminated (concat chunks))) \<noteq> ''[DONE]''"
  shows "convertStreamResponse pc P (Some chunks) =
      flushed pc P (after_lines pc P (complete_lines (concat chunks)))
        (trim (drop 6 (unterminated (concat chunks))))"
    and "convertStreamResponse pc P (Some (chunks @ [[CHR 0x0A]])) =
      flushed pc P (after_lines pc P (complete_lines (concat chunks)))
        (trim (drop 6 (unterminated (concat chunks))))"
proof -
  define U where "U = unterminated (concat chunks)"
  define S where "S = after_lines pc P (complete_lines (concat chunks))"
  define payload where "payload = trim (drop 6 U)"
  let ?pl = "processLine pc P"
  let ?vj = "\<lambda>s. pc s \<noteq> None"
  have fb: "finalBuffer ?vj ?pl (S\<lparr>st_buffer := U\<rparr>) = callProcessLine ?pl True payload (S\<lparr>st_buffer := U\<rparr>)"
    unfolding payload_def using assms finalBuffer_data [of "S\<lparr>st_buffer := U\<rparr>" ?vj ?pl]
    by (simp add: U_def)
  have "convertStreamResponse pc P (Some chunks) = closeStream ?vj ?pl (S\<lparr>st_buffer := U\<rparr>)"
    by (simp add: convertStreamResponse_def stream_closed_form S_def U_def after_lines_def
        complete_lines_def unterminated_def)
  also have "\<dots> = flushed pc P S payload"
    unfolding closeStream_def Let_def fb
    by (simp add: callProcessLine_def flushed_def split: prod.splits option.splits)
  finally show "convertStreamResponse pc P (Some chunks) =
      flushed pc P (after_lines pc P (complete_lines (concat chunks)))
        (trim (drop 6 (unterminated (concat chunks))))"
    by (simp add: S_def payload_def U_def)
  have nn: "CHR 0x0A \<notin> set U"
    unfolding U_def unterminated_def by (rule last_split_lines_no_newline)
  have sp: "split_lines (concat chunks @ [CHR 0x0A])
      = complete_lines (concat chunks) @ [U, []]"
    using split_lines_append [of "concat chunks" "[CHR 0x0A]"] split_lines_newline [OF nn, of "[]"]
    by (simp add: complete_lines_def U_def unterminated_def)
  have hl: "handleLine ?pl U S = callProcessLine ?pl False payload S"
    unfolding payload_def using assms by (intro handleLine_data) (simp_all add: U_def)
  have "convertStreamResponse pc P (Some (chunks @ [[CHR 0x0A]]))
      = closeStream ?vj ?pl ((handleLine ?pl U S)\<lparr>st_buffer := []\<rparr>)"
    by (simp add: convertStreamResponse_def stream_closed_form sp butlast_append S_def
        after_lines_def)
  also have "\<dots> = flushed pc P S payload"
    unfolding hl by (rule closeStream_callProcessLine)
  finally show "convertStreamResponse pc P (Some (chunks @ [[CHR 0x0A]])) =
      flushed pc P (after_lines pc P (complete_lines (concat chunks)))
        (trim (drop 6 (unterminated (concat chunks))))"
    by (simp add: S_def payload_def U_def)
qed

lemma flushed_json:
  assumes "trim (unterminated (concat chunks)) \<noteq> []"
    and "take 6 (trim (unterminated (concat chunks))) \<noteq> ''data: ''"
    and "pc (trim (unterminated (concat chunks))) \<noteq> None"
  shows "convertStreamResponse pc P (Some chunks) =
      flushed pc P (after_lines pc P (complete_lines (concat chunks)))
        (trim (unterminated (concat chunks)))"
proof -
  define U where "U = unterminated (concat chunks)"
  define S where "S = after_lines pc P (complete_lines (concat chunks))"
  let ?pl = "processLine pc P"
  let ?vj = "\<lambda>s. pc s \<noteq> None"
  have fb: "finalBuffer ?vj ?pl (S\<lparr>st_buffer := U\<rparr>)
      = callProcessLine ?pl True (trim U) (S\<lparr>st_buffer := U\<rparr>)"
    using assms finalBuffer_json [of "S\<lparr>st_buffer := U\<rparr>" ?vj ?pl]
    by (simp add: U_def)
  have "convertStreamResponse pc P (Some chunks) = closeStream ?vj ?pl (S\<lparr>st_buffer := U\<rparr>)"
    by (simp add: convertStreamResponse_def stream_closed_form S_def U_def after_lines_def
        complete_lines_def unterminated_def)
  also have "\<dots> = flushed pc P S (trim U)"
    unfolding closeStream_def Let_def fb
    by (simp add: callProcessLine_def flushed_def split: prod.splits option.splits)
  finally show ?thesis by (simp add: S_def U_def)
qed

lemma flushed_blank:
  assumes "trim (unterminated (concat chunks)) = []"
  shows "convertStreamResponse pc P (Some chunks) =
      st_enqueued (after_lines pc P (complete_lines (concat chunks)))
        @ (if st_hasStartedContent (after_lines pc P (complete_lines (concat chunks)))
           then [ContentBlockStop 0] else [])
        @ [MessageStop]"
proof -
  define U where "U = unterminated (concat chunks)"
  define S where "S = after_lines pc P (complete_lines (concat chunks))"
  have fb: "finalBuffer (\<lambda>s. pc s \<noteq> None) (processLine pc P) (S\<lparr>st_buffer := U\<rparr>)
      = S\<lparr>st_buffer := U\<rparr>"
    using assms by (intro finalBuffer_blank) (simp add: U_def)
  have "convertStreamResponse pc P (Some chunks)
      = closeStream (\<lambda>s. pc s \<noteq> None) (processLine pc P) (S\<lparr>st_buffer := U\<rparr>)"
    by (simp add: convertStreamResponse_def stream_closed_form S_def U_def after_lines_def
        complete_lines_def unterminated_def)
  also have "\<dots> = st_enqueued S @ (if st_hasStartedContent S then [ContentBlockStop 0] else [])
      @ [MessageStop]"
    unfolding closeStream_def Let_def fb by simp
  finally show ?thesis by (simp add: S_def)
qed

text \<open>
  Claim C4. However the text of the provider's stream is cut into chunks, the events are
  those of the text as a whole: its complete lines are handled in order, and what
  follows the last newline stays in \<^verbatim>\<open>buffer\<close> until the stream ends, when the final
  block processes it. Two sequences of chunks with the same text give the same events.
  A last line \<^verbatim>\<open>data: <payload>\<close> that no newline ends is flushed when the stream closes:
  its payload is passed to the callback in the state the complete lines have left, the
  events returned are sent before the closing events, and the events of the stream are
  those of the same stream with a newline at its end. A last line that is JSON without
  the prefix \<^verbatim>\<open>data: \<close> is flushed in the same way, and a blank one adds no event.
\<close>

theorem chunking_invariance:
  "convertStreamResponse parse_chunk JSON_parse (Some chunks) =
     closeStream (\<lambda>s. parse_chunk s \<noteq> None) (processLine parse_chunk JSON_parse)
       ((fold (handleLine (processLine parse_chunk JSON_parse))
           (butlast (split_lines (concat chunks))) (openStream (\<lambda>index. None)))
          \<lparr>st_buffer := last (split_lines (concat chunks))\<rparr>)
   \<and> (concat chunks = concat chunks' \<longrightarrow>
        convertStreamResponse parse_chunk JSON_parse (Some chunks) =
        convertStreamResponse parse_chunk JSON_parse (Some chunks')
        \<and> processProviderStream valid_json process_line closure (Some chunks) =
          processProviderStream valid_json process_line closure (Some chunks'))
   \<and> (take 6 (unterminated (concat chunks)) = ''data: ''
        \<and> trim (drop 6 (unterminated (concat chunks))) \<noteq> []
        \<and> trim (drop 6 (unterminated (concat chunks))) \<noteq> ''[DONE]'' \<longrightarrow>
        convertStreamResponse parse_chunk JSON_parse (Some chunks) =
          flushed parse_chunk JSON_parse
            (after_lines parse_chunk JSON_parse (complete_lines (concat chunks)))
            (trim (drop 6 (unterminated (concat chunks))))
        \<and> convertStreamResponse parse_chunk JSON_parse (Some chunks) =
          convertStreamResponse parse_chunk JSON_parse (Some (chunks @ [[CHR 0x0A]])))
   \<and> (trim (unterminated (concat chunks)) \<noteq> []
        \<and> take 6 (trim (unterminated (concat chunks))) \<noteq> ''data: ''
        \<and> parse_chunk (trim (unterminated (concat chunks))) \<noteq> None \<longrightarrow>
        convertStreamResponse parse_chunk JSON_parse (Some chunks) =
          flushed parse_chunk JSON_parse
            (after_lines parse_chunk JSON_parse (complete_lines (concat chunks)))
            (trim (unterminated (concat chunks))))
   \<and> (trim (unterminated (concat chunks)) = [] \<longrightarrow>
        convertStreamResponse parse_chunk JSON_parse (Some chunks) =
          st_enqueued (after_lines parse_chunk JSON_parse (complete_lines (concat chunks)))
            @ (if st_hasStartedContent
                    (after_lines parse_chunk JSON_parse (complete_lines (concat chunks)))
               then [ContentBlockStop 0] else [])
            @ [MessageStop])"
proof (intro conjI impI)
  assume "take 6 (unterminated (concat chunks)) = ''data: ''
        \<and> trim (drop 6 (unterminated (concat chunks))) \<noteq> []
        \<and> trim (drop 6 (unterminated (concat chunks))) \<noteq> ''[DONE]''"
  then have a: "take 6 (unterminated (concat chunks)) = ''data: ''"
    "trim (drop 6 (unterminated (concat chunks))) \<noteq> []"
    "trim (drop 6 (unterminated (concat chunks))) \<noteq> ''[DONE]''"
    by simp_all
  show "convertStreamResponse parse_chunk JSON_parse (Some chunks) =
          flushed parse_chunk JSON_parse
            (after_lines parse_chunk JSON_parse (complete_lines (concat chunks)))
            (trim (drop 6 (unterminated (concat chunks))))"
    by (rule flushed_data(1) [OF a])
  then show "convertStreamResponse parse_chunk JSON_parse (Some chunks) =
          convertStreamResponse parse_chunk JSON_parse (Some (chunks @ [[CHR 0x0A]]))"
    using flushed_data(2) [OF a, of parse_chunk JSON_parse] by simp
next
  assume "trim (unterminated (concat chunks)) \<noteq> []
        \<and> take 6 (trim (unterminated (concat chunks))) \<noteq> ''data: ''
        \<and> parse_chunk (trim (unterminated (concat chunks))) \<noteq> None"
  then show "convertStreamResponse parse_chunk JSON_parse (Some chunks) =
          flushed parse_chunk JSON_parse
            (after_lines parse_chunk JSON_parse (complete_lines (concat chunks)))
            (trim (unterminated (concat chunks)))"
    by (intro flushed_json) simp_all
next
  assume "trim (unterminated (concat chunks)) = []"
  then show "convertStreamResponse parse_chunk JSON_parse (Some chunks) =
          st_enqueued (after_lines parse_chunk JSON_parse (complete_lines (concat chunks)))
            @ (if st_hasStartedContent
                    (after_lines parse_chunk JSON_parse (complete_lines (concat chunks)))
               then [ContentBlockStop 0] else [])
            @ [MessageStop]"
    by (rule flushed_blank)
qed (simp_all add: convertStreamResponse_def stream_closed_form)

text \<open>
  A stream of two text deltas whose last line is not ended, as a whole and cut inside a
  key and inside the last line: the events are the same, and the second delta is sent.
\<close>

theorem chunking_invariance_witness:
  \<open>convertStreamResponse example_chunk example_json
      (Some [''data: {"choices":[{"delta":{"content":"Hi"}}]}\<newline>data: {"choices":[{"delta":{"content":"!"}}]}''])
    = [MessageStart, ContentBlockStart 0 TextBlock, ContentBlockDelta 0 (TextDelta ''Hi''),
       ContentBlockDelta 0 (TextDelta ''!''), ContentBlockStop 0, MessageStop]
   \<and> convertStreamResponse example_chunk example_json
      (Some [''data: {"choi'',
             ''ces":[{"delta":{"content":"Hi"}}]}\<newline>data: {"choices":[{"del'',
             ''ta":{"content":"!"}}]}''])
    = [MessageStart, ContentBlockStart 0 TextBlock, ContentBlockDelta 0 (TextDelta ''Hi''),
       ContentBlockDelta 0 (TextDelta ''!''), ContentBlockStop 0, MessageStop]\<close>
proof -
  let ?whole = \<open>[''data: {"choices":[{"delta":{"content":"Hi"}}]}\<newline>data: {"choices":[{"delta":{"content":"!"}}]}'']\<close>
  let ?cut = \<open>[''data: {"choi'',
             ''ces":[{"delta":{"content":"Hi"}}]}\<newline>data: {"choices":[{"del'',
             ''ta":{"content":"!"}}]}'']\<close>
  note t = chunking_invariance [of example_chunk example_json ?cut ?whole]
  have ended: \<open>convertStreamResponse example_chunk example_json (Some (?cut @ [[CHR 0x0A]]))
    = [MessageStart, ContentBlockStart 0 TextBlock, ContentBlockDelta 0 (TextDelta ''Hi''),
       ContentBlockDelta 0 (TextDelta ''!''), ContentBlockStop 0, MessageStop]\<close>
    by code_simp
  have last_line: \<open>take 6 (unterminated (concat ?cut)) = ''data: ''
        \<and> trim (drop 6 (unterminated (concat ?cut))) \<noteq> []
        \<and> trim (drop 6 (unterminated (concat ?cut))) \<noteq> ''[DONE]''\<close>
    by code_simp
  have flush: "convertStreamResponse example_chunk example_json (Some ?cut)
      = convertStreamResponse example_chunk example_json (Some (?cut @ [[CHR 0x0A]]))"
    by (rule conjunct2 [OF mp [OF conjunct1 [OF conjunct2 [OF conjunct2 [OF t]]] last_line]])
  have same: "concat ?cut = concat ?whole"
    by simp
  have eq: "convertStreamResponse example_chunk example_json (Some ?cut)
      = convertStreamResponse example_chunk example_json (Some ?whole)"
    by (rule conjunct1 [OF mp [OF conjunct1 [OF conjunct2 [OF t]] same]])
  have c: \<open>convertStreamResponse example_chunk example_json (Some ?cut)
    = [MessageStart, ContentBlockStart 0 TextBlock, ContentBlockDelta 0 (TextDelta ''Hi''),
       ContentBlockDelta 0 (TextDelta ''!''), ContentBlockStop 0, MessageStop]\<close>
    by (rule trans [OF flush ended])
  show ?thesis
    using trans [OF eq [symmetric] c] c by (rule conjI)
qed

subsection \<open>The life cycle of blocks\<close>

text \<open>
  Claim C1 fails on the code. On a stream with one text delta, a chunk with a finish
  reason and the line \<^verbatim>\<open>[DONE]\<close>, the block 0 is started once and stopped three times:
  by the finish reason (lines 557-566), by \<^verbatim>\<open>[DONE]\<close> (lines 649-661) and by the final
  block (lines 721-729).
\<close>

theorem text_block_stopped_three_times:
  \<open>convertStreamResponse example_chunk example_json
      (Some [''data: {"choices":[{"delta":{"content":"Hi"}}]}\<newline>\<newline>'',
             ''data: {"choices":[{"delta":{},"finish_reason":"stop"}]}\<newline>\<newline>'',
             ''data: [DONE]\<newline>\<newline>''])
    = [MessageStart, ContentBlockStart 0 TextBlock, ContentBlockDelta 0 (TextDelta ''Hi''),
       ContentBlockStop 0, ContentBlockStop 0, ContentBlockStop 0, MessageStop]\<close>
  by code_simp

text \<open>
  Claim C3 fails on the code. The stream starts with one \<^verbatim>\<open>message_start\<close> and ends with
  one \<^verbatim>\<open>message_stop\<close>, but the final \<^verbatim>\<open>content_block_stop\<close> for block 0 is sent
  although the finish reason has already closed the block.
\<close>

theorem final_stop_after_finish_reason:
  \<open>convertStreamResponse example_chunk example_json
      (Some [''data: {"choices":[{"delta":{"content":"Hi"}}]}\<newline>\<newline>data: {"choices":[{"delta":{},"finish_reason":"stop"}]}\<newline>\<newline>''])
    = [MessageStart, ContentBlockStart 0 TextBlock, ContentBlockDelta 0 (TextDelta ''Hi''),
       ContentBlockStop 0, ContentBlockStop 0, MessageStop]\<close>
  by code_simp

subsection \<open>The buffer of a tool call\<close>









subsection \<open>Tool calls delivered line by line\<close>

















lemma tool_blocks_ok_simple [simp]:
  "tool_blocks_ok P []" "tool_blocks_ok P [MessageStart]" "tool_blocks_ok P [MessageStop]"
  "tool_blocks_ok P [ContentBlockStop i]" "tool_blocks_ok P [ContentBlockStart i TextBlock]"
  "tool_blocks_ok P [ContentBlockDelta i (TextDelta t)]"
  by (simp_all add: tool_blocks_ok_def parsed_deltas_def)

















end
